theory Spec2Isabelle
  imports Main "HOL-Library.Log_Nat"
begin

section \<open>The element type and the environment\<close>

text \<open>
  The container of \<^verbatim>\<open>vector.h\<close> is generic in its element type \<open>T\<close>. Everything the
  container asks of \<open>T\<close> is collected in a record: which of its operations throw, what a
  moved-from object looks like, and the two type traits the \<^verbatim>\<open>if constexpr\<close> tests read.
  The outcome of \<^verbatim>\<open>operator new\<close> is part of the environment as well.

  What the model takes for granted about \<open>T\<close>: a copy or a move that succeeds yields the
  value of its source; an element operation that throws leaves its operands as they were;
  destructors do not throw.

  Sizes and capacities are natural numbers, \<^verbatim>\<open>size_t\<close> has 64 bits. The product
  \<^verbatim>\<open>size_ * 2\<close> is formed at \<^verbatim>\<open>size_ == Capacity()\<close> only, where a block of
  \<^verbatim>\<open>size_ * sizeof(T)\<close> bytes is allocated already, so that it does not wrap around. The
  product \<^verbatim>\<open>n * sizeof(T)\<close> inside \<^verbatim>\<open>Allocate\<close> does wrap around for a large \<open>n\<close>, and is
  modelled with its wrap-around.
\<close>

datatype exn = bad_alloc | element_exn

record ('a, 'g) env =
  ctor :: "'g \<Rightarrow> 'a option"  \<comment> \<open>\<^verbatim>\<open>T(args...)\<close>; \<open>None\<close> when it throws\<close>
  value_init :: "'a option"  \<comment> \<open>\<^verbatim>\<open>T()\<close>\<close>
  copy_ctor_throws :: "'a \<Rightarrow> bool"
  move_ctor_throws :: "'a \<Rightarrow> bool"
  copy_assign_throws :: "'a \<Rightarrow> 'a \<Rightarrow> bool"  \<comment> \<open>target, source\<close>
  move_assign_throws :: "'a \<Rightarrow> 'a \<Rightarrow> bool"  \<comment> \<open>target, source\<close>
  moved_from :: "'a \<Rightarrow> 'a"
  is_nothrow_move_constructible :: bool
  is_copy_constructible :: bool
  operator_new_fails :: "nat \<Rightarrow> bool"  \<comment> \<open>by number of slots requested\<close>
  sizeof_T :: nat  \<comment> \<open>\<^verbatim>\<open>sizeof(T)\<close>, in bytes\<close>

text \<open>
  A call returns, leaves by an exception, or stops the program at a failed \<^verbatim>\<open>assert\<close>.
  The first two carry the state of the object the call was made on.
\<close>

datatype ('r, 's) outcome = Return 'r 's | Throw exn 's | AssertFail

text \<open>
  What a constructor call \<^verbatim>\<open>T(std::forward<Args>(args)...)\<close> is given: constructor
  arguments, a \<^verbatim>\<open>const T&\<close> or a \<^verbatim>\<open>T&&\<close> to an object outside the container, or a
  \<^verbatim>\<open>const T&\<close> to the element \<^verbatim>\<open>(*this)[i]\<close> of the container itself. The last one is
  read from the container's buffer at the moment the constructor runs.
\<close>

datatype ('a, 'g) arg = Args 'g | Lvalue 'a | Rvalue 'a | Element nat

definition construct_element :: "('a, 'g) env \<Rightarrow> 'a option list \<Rightarrow> ('a, 'g) arg \<Rightarrow> 'a option" where
  "construct_element env buf a =
     (case a of
        Args g \<Rightarrow> ctor env g
      | Lvalue x \<Rightarrow> if copy_ctor_throws env x then None else Some x
      | Rvalue x \<Rightarrow> if move_ctor_throws env x then None else Some x
      | Element i \<Rightarrow>
          (let x = the (buf ! i) in if copy_ctor_throws env x then None else Some x))"

section \<open>RawMemory\<close>

text \<open>
  A slot of raw memory is \<open>None\<close> while it holds no object. The fields \<^verbatim>\<open>buffer_\<close> and
  \<^verbatim>\<open>capacity_\<close> are \<open>rm_buffer\<close> and \<open>rm_capacity\<close>; \<^verbatim>\<open>nullptr\<close> is the empty list.
\<close>

record 'a RawMemory =
  rm_buffer :: "'a option list"
  rm_capacity :: nat

text \<open>
  \<^verbatim>\<open>Allocate(n)\<close> passes \<^verbatim>\<open>n * sizeof(T)\<close>, computed in \<^verbatim>\<open>size_t\<close>, to \<^verbatim>\<open>operator new\<close>.
  The block it gets has that many bytes, whatever \<open>n\<close> was: it holds
  \<open>(n * sizeof(T) mod 2 ^ 64) div sizeof(T)\<close> objects, which is \<open>n\<close> when the product fits
  \<^verbatim>\<open>size_t\<close> and less when it does not. The list of slots is the block; a write to a slot
  beyond its end is undefined behaviour of the program and leaves no trace in the list.
\<close>

definition byte_count :: "('a, 'g) env \<Rightarrow> nat \<Rightarrow> nat" where
  \<comment> \<open>\<^verbatim>\<open>n * sizeof(T)\<close> in \<^verbatim>\<open>size_t\<close>\<close>
  "byte_count env n = (n * sizeof_T env) mod 2 ^ 64"

definition Allocate :: "('a, 'g) env \<Rightarrow> nat \<Rightarrow> 'a option list option" where
  "Allocate env n =
     (if n \<noteq> 0 then
        (if operator_new_fails env n then None
         else Some (replicate (byte_count env n div sizeof_T env) None))
      else Some [])"

definition RawMemory_default :: "'a RawMemory" where
  "RawMemory_default = \<lparr>rm_buffer = [], rm_capacity = 0\<rparr>"

definition RawMemory_sized :: "('a, 'g) env \<Rightarrow> nat \<Rightarrow> 'a RawMemory option" where
  "RawMemory_sized env capacity =
     (case Allocate env capacity of
        None \<Rightarrow> None
      | Some b \<Rightarrow> Some \<lparr>rm_buffer = b, rm_capacity = capacity\<rparr>)"

text \<open>
  Where the container chooses the capacity itself, the request is one object, the size of
  a live vector (copy construction) or twice the size of a full vector (growth). Beyond
  the single object, a block of at least half as many objects exists already, so the
  product does not wrap around, and \<^verbatim>\<open>RawMemory(capacity)\<close> is a block of \<open>capacity\<close> slots
  or an exception (\<open>RawMemory_fitting\<close>; the lemma \<open>growth_request_fits\<close> relates it to
  \<open>RawMemory_sized\<close>). The capacities that \<^verbatim>\<open>Reserve\<close>, \<^verbatim>\<open>Resize\<close> and the sized
  constructor pass on come from the caller, and go through \<open>RawMemory_sized\<close>.
\<close>

definition RawMemory_fitting :: "('a, 'g) env \<Rightarrow> nat \<Rightarrow> 'a RawMemory option" where
  \<comment> \<open>\<^verbatim>\<open>RawMemory(capacity)\<close> for a capacity with \<^verbatim>\<open>capacity * sizeof(T) <= SIZE_MAX\<close>\<close>
  "RawMemory_fitting env capacity =
     (if capacity \<noteq> 0 \<and> operator_new_fails env capacity then None
      else Some \<lparr>rm_buffer = replicate capacity None, rm_capacity = capacity\<rparr>)"

definition RawMemory_Swap :: "'a RawMemory \<Rightarrow> 'a RawMemory \<Rightarrow> 'a RawMemory \<times> 'a RawMemory" where
  "RawMemory_Swap m other =
     (m\<lparr>rm_buffer := rm_buffer other, rm_capacity := rm_capacity other\<rparr>,
      other\<lparr>rm_buffer := rm_buffer m, rm_capacity := rm_capacity m\<rparr>)"

section \<open>The standard algorithms on raw memory\<close>

fun destroy_n :: "'a option list \<Rightarrow> nat \<Rightarrow> nat \<Rightarrow> 'a option list" where
  "destroy_n buf first 0 = buf"
| "destroy_n buf first (Suc n) = destroy_n (buf[first := None]) (Suc first) n"

text \<open>
  The \<^verbatim>\<open>uninitialized_*\<close> algorithms construct one object after the other and, when a
  constructor throws, destroy the objects they have constructed before the exception
  leaves. The first component of the result is \<open>False\<close> when an exception left.
  The source ranges the container passes are live elements of a well-formed vector, whose
  slots hold objects; their values are read with \<open>the\<close>.
\<close>

fun uninitialized_value_construct_n ::
  "('a, 'g) env \<Rightarrow> 'a option list \<Rightarrow> nat \<Rightarrow> nat \<Rightarrow> bool \<times> 'a option list" where
  "uninitialized_value_construct_n env buf first 0 = (True, buf)"
| "uninitialized_value_construct_n env buf first (Suc n) =
     (case value_init env of
        None \<Rightarrow> (False, buf)
      | Some x \<Rightarrow>
          (case uninitialized_value_construct_n env (buf[first := Some x]) (Suc first) n of
             (True, b) \<Rightarrow> (True, b)
           | (False, b) \<Rightarrow> (False, b[first := None])))"

fun uninitialized_copy_n ::
  "('a, 'g) env \<Rightarrow> 'a option list \<Rightarrow> nat \<Rightarrow> nat \<Rightarrow> 'a option list \<Rightarrow> nat
     \<Rightarrow> bool \<times> 'a option list" where
  "uninitialized_copy_n env src first 0 dst result = (True, dst)"
| "uninitialized_copy_n env src first (Suc n) dst result =
     (let x = the (src ! first) in
      if copy_ctor_throws env x then (False, dst)
      else
        (case uninitialized_copy_n env src (Suc first) n (dst[result := Some x]) (Suc result) of
           (True, d) \<Rightarrow> (True, d)
         | (False, d) \<Rightarrow> (False, d[result := None])))"

text \<open>Moving leaves the moved-from object in the source slot; the result has both buffers.\<close>

fun uninitialized_move_n ::
  "('a, 'g) env \<Rightarrow> 'a option list \<Rightarrow> nat \<Rightarrow> nat \<Rightarrow> 'a option list \<Rightarrow> nat
     \<Rightarrow> bool \<times> 'a option list \<times> 'a option list" where
  "uninitialized_move_n env src first 0 dst result = (True, src, dst)"
| "uninitialized_move_n env src first (Suc n) dst result =
     (let x = the (src ! first) in
      if move_ctor_throws env x then (False, src, dst)
      else
        (case uninitialized_move_n env (src[first := Some (moved_from env x)]) (Suc first) n
                (dst[result := Some x]) (Suc result) of
           (True, s, d) \<Rightarrow> (True, s, d)
         | (False, s, d) \<Rightarrow> (False, s, d[result := None])))"

text \<open>
  \<^verbatim>\<open>std::copy(first, first + n, result)\<close> from another object's buffer: copy assignment,
  element by element, stopping where an assignment throws.
\<close>

fun std_copy ::
  "('a, 'g) env \<Rightarrow> 'a option list \<Rightarrow> nat \<Rightarrow> nat \<Rightarrow> 'a option list \<Rightarrow> nat
     \<Rightarrow> bool \<times> 'a option list" where
  "std_copy env src first 0 dst result = (True, dst)"
| "std_copy env src first (Suc n) dst result =
     (let x = the (src ! first); y = the (dst ! result) in
      if copy_assign_throws env y x then (False, dst)
      else std_copy env src (Suc first) n (dst[result := Some x]) (Suc result))"

text \<open>
  \<^verbatim>\<open>std::move(first, first + n, result)\<close> and
  \<^verbatim>\<open>std::move_backward(lst - n, lst, d_last)\<close> inside one buffer: move assignment,
  forwards and backwards.
\<close>

fun std_move ::
  "('a, 'g) env \<Rightarrow> 'a option list \<Rightarrow> nat \<Rightarrow> nat \<Rightarrow> nat \<Rightarrow> bool \<times> 'a option list" where
  "std_move env buf first 0 result = (True, buf)"
| "std_move env buf first (Suc n) result =
     (let x = the (buf ! first); y = the (buf ! result) in
      if move_assign_throws env y x then (False, buf)
      else std_move env (buf[result := Some x, first := Some (moved_from env x)])
             (Suc first) n (Suc result))"

fun std_move_backward ::
  "('a, 'g) env \<Rightarrow> 'a option list \<Rightarrow> nat \<Rightarrow> nat \<Rightarrow> nat \<Rightarrow> bool \<times> 'a option list" where
  "std_move_backward env buf lst 0 d_last = (True, buf)"
| "std_move_backward env buf lst (Suc n) d_last =
     (let x = the (buf ! (lst - 1)); y = the (buf ! (d_last - 1)) in
      if move_assign_throws env y x then (False, buf)
      else std_move_backward env (buf[d_last - 1 := Some x, lst - 1 := Some (moved_from env x)])
             (lst - 1) n (d_last - 1))"

section \<open>Vector\<close>

text \<open>The fields \<^verbatim>\<open>data_\<close> and \<^verbatim>\<open>size_\<close> are \<open>v_data\<close> and \<open>v_size\<close>.\<close>

record 'a Vector =
  v_data :: "'a RawMemory"
  v_size :: nat

definition Size :: "'a Vector \<Rightarrow> nat" where
  "Size v = v_size v"

definition Capacity :: "'a Vector \<Rightarrow> nat" where
  "Capacity v = rm_capacity (v_data v)"

definition GetAddress :: "'a Vector \<Rightarrow> 'a option list" where
  "GetAddress v = rm_buffer (v_data v)"

definition with_buffer :: "'a Vector \<Rightarrow> 'a option list \<Rightarrow> 'a Vector" where
  \<comment> \<open>the object after writes through \<^verbatim>\<open>data_.GetAddress()\<close>\<close>
  "with_buffer v b = v\<lparr>v_data := (v_data v)\<lparr>rm_buffer := b\<rparr>\<rparr>"

definition Vector_default :: "'a Vector" where
  "Vector_default = \<lparr>v_data = RawMemory_default, v_size = 0\<rparr>"

definition Vector_sized :: "('a, 'g) env \<Rightarrow> nat \<Rightarrow> exn + 'a Vector" where
  "Vector_sized env sz =
     (case RawMemory_sized env sz of
        None \<Rightarrow> Inl bad_alloc
      | Some d \<Rightarrow>
          (case uninitialized_value_construct_n env (rm_buffer d) 0 sz of
             (False, b) \<Rightarrow> Inl element_exn
           | (True, b) \<Rightarrow> Inr \<lparr>v_data = d\<lparr>rm_buffer := b\<rparr>, v_size = sz\<rparr>))"

definition Vector_copy :: "('a, 'g) env \<Rightarrow> 'a Vector \<Rightarrow> exn + 'a Vector" where
  "Vector_copy env other =
     (case RawMemory_fitting env (v_size other) of
        None \<Rightarrow> Inl bad_alloc
      | Some d \<Rightarrow>
          (case uninitialized_copy_n env (GetAddress other) 0 (v_size other) (rm_buffer d) 0 of
             (False, b) \<Rightarrow> Inl element_exn
           | (True, b) \<Rightarrow> Inr \<lparr>v_data = d\<lparr>rm_buffer := b\<rparr>, v_size = v_size other\<rparr>))"

definition Swap :: "'a Vector \<Rightarrow> 'a Vector \<Rightarrow> 'a Vector \<times> 'a Vector" where
  "Swap v other =
     (let (d, od) = RawMemory_Swap (v_data v) (v_data other) in
      (v\<lparr>v_data := d, v_size := v_size other\<rparr>, other\<lparr>v_data := od, v_size := v_size v\<rparr>))"

definition Vector_move :: "'a Vector \<Rightarrow> 'a Vector \<times> 'a Vector" where
  \<comment> \<open>the new object and the moved-from one\<close>
  "Vector_move other = Swap Vector_default other"

definition elems :: "'a Vector \<Rightarrow> 'a list" where
  \<comment> \<open>the visible contents: \<^verbatim>\<open>(*this)[0]\<close> ... \<^verbatim>\<open>(*this)[size_ - 1]\<close>\<close>
  "elems v = map the (take (v_size v) (GetAddress v))"

definition PopBack :: "'a Vector \<Rightarrow> (unit, 'a Vector) outcome" where
  "PopBack v =
     (if v_size v > 0 then
        Return () ((with_buffer v ((GetAddress v)[v_size v - 1 := None]))\<lparr>v_size := v_size v - 1\<rparr>)
      else Return () v)"

definition swap_in :: "'a Vector \<Rightarrow> 'a option list \<Rightarrow> 'a RawMemory \<Rightarrow> 'a Vector" where
  \<comment> \<open>\<^verbatim>\<open>std::destroy_n(data_.GetAddress(), size_); data_.Swap(new_data);\<close> after which
      \<^verbatim>\<open>new_data\<close>, now the old block, goes out of scope\<close>
  "swap_in v old_buf new_data =
     (let old = (v_data v)\<lparr>rm_buffer := destroy_n old_buf 0 (v_size v)\<rparr>;
          (d, nd) = RawMemory_Swap old new_data
      in v\<lparr>v_data := d\<rparr>)"

definition Reserve :: "('a, 'g) env \<Rightarrow> nat \<Rightarrow> 'a Vector \<Rightarrow> (unit, 'a Vector) outcome" where
  "Reserve env new_capacity v =
     (if new_capacity \<le> rm_capacity (v_data v) then Return () v
      else
        (case RawMemory_sized env new_capacity of
           None \<Rightarrow> Throw bad_alloc v
         | Some new_data \<Rightarrow>
             if is_nothrow_move_constructible env \<or> \<not> is_copy_constructible env then
               (case uninitialized_move_n env (GetAddress v) 0 (v_size v) (rm_buffer new_data) 0 of
                  (False, ob, nb) \<Rightarrow> Throw element_exn (with_buffer v ob)
                | (True, ob, nb) \<Rightarrow> Return () (swap_in v ob (new_data\<lparr>rm_buffer := nb\<rparr>)))
             else
               (case uninitialized_copy_n env (GetAddress v) 0 (v_size v) (rm_buffer new_data) 0 of
                  (False, nb) \<Rightarrow> Throw element_exn v
                | (True, nb) \<Rightarrow>
                    Return () (swap_in v (GetAddress v) (new_data\<lparr>rm_buffer := nb\<rparr>)))))"

definition Resize :: "('a, 'g) env \<Rightarrow> nat \<Rightarrow> 'a Vector \<Rightarrow> (unit, 'a Vector) outcome" where
  "Resize env new_size v =
     (if new_size > v_size v then
        (case Reserve env new_size v of
           AssertFail \<Rightarrow> AssertFail
         | Throw e v1 \<Rightarrow> Throw e v1
         | Return u v1 \<Rightarrow>
             (case uninitialized_value_construct_n env (GetAddress v1) (v_size v1)
                     (new_size - v_size v1) of
                (False, b) \<Rightarrow> Throw element_exn (with_buffer v1 b)
              | (True, b) \<Rightarrow> Return () ((with_buffer v1 b)\<lparr>v_size := new_size\<rparr>)))
      else
        Return ()
          ((with_buffer v (destroy_n (GetAddress v) new_size (v_size v - new_size)))
             \<lparr>v_size := new_size\<rparr>))"

text \<open>\<^verbatim>\<open>EmplaceBack\<close> returns a reference to the new element, here its index.\<close>

definition EmplaceBack ::
  "('a, 'g) env \<Rightarrow> ('a, 'g) arg \<Rightarrow> 'a Vector \<Rightarrow> (nat, 'a Vector) outcome" where
  "EmplaceBack env args v =
     (if v_size v = Capacity v then
        (case RawMemory_fitting env (if v_size v = 0 then 1 else v_size v * 2) of
           None \<Rightarrow> Throw bad_alloc v
         | Some new_data \<Rightarrow>
             (case construct_element env (GetAddress v) args of
                None \<Rightarrow> Throw element_exn v
              | Some x \<Rightarrow>
                  (let nb0 = (rm_buffer new_data)[v_size v := Some x] in
                   if is_nothrow_move_constructible env \<or> \<not> is_copy_constructible env then
                     (case uninitialized_move_n env (GetAddress v) 0 (v_size v) nb0 0 of
                        (False, ob, nb) \<Rightarrow> Throw element_exn (with_buffer v ob)
                      | (True, ob, nb) \<Rightarrow>
                          Return (v_size v)
                            ((swap_in v ob (new_data\<lparr>rm_buffer := nb\<rparr>))
                               \<lparr>v_size := v_size v + 1\<rparr>))
                   else
                     (case uninitialized_copy_n env (GetAddress v) 0 (v_size v) nb0 0 of
                        (False, nb) \<Rightarrow> Throw element_exn v
                      | (True, nb) \<Rightarrow>
                          Return (v_size v)
                            ((swap_in v (GetAddress v) (new_data\<lparr>rm_buffer := nb\<rparr>))
                               \<lparr>v_size := v_size v + 1\<rparr>)))))
      else
        (case construct_element env (GetAddress v) args of
           None \<Rightarrow> Throw element_exn v
         | Some x \<Rightarrow>
             Return (v_size v)
               ((with_buffer v ((GetAddress v)[v_size v := Some x]))
                  \<lparr>v_size := v_size v + 1\<rparr>)))"

definition PushBack ::
  "('a, 'g) env \<Rightarrow> ('a, 'g) arg \<Rightarrow> 'a Vector \<Rightarrow> (unit, 'a Vector) outcome" where
  "PushBack env val v =
     (case EmplaceBack env val v of
        Return r v' \<Rightarrow> Return () v'
      | Throw e v' \<Rightarrow> Throw e v'
      | AssertFail \<Rightarrow> AssertFail)"

text \<open>
  An iterator is its distance from \<^verbatim>\<open>begin()\<close>. \<^verbatim>\<open>Emplace\<close> and \<^verbatim>\<open>Erase\<close> take one and
  assert that it lies in the container; they return the iterator \<^verbatim>\<open>begin() + offset\<close>.
\<close>

definition Emplace ::
  "('a, 'g) env \<Rightarrow> int \<Rightarrow> ('a, 'g) arg \<Rightarrow> 'a Vector \<Rightarrow> (nat, 'a Vector) outcome" where
  "Emplace env pos args v =
     (if \<not> (0 \<le> pos \<and> pos \<le> int (v_size v)) then AssertFail
      else
        (let offset = nat pos in
         if v_size v = Capacity v then
           (case RawMemory_fitting env (if v_size v = 0 then 1 else v_size v * 2) of
              None \<Rightarrow> Throw bad_alloc v
            | Some new_data \<Rightarrow>
                (case construct_element env (GetAddress v) args of
                   None \<Rightarrow> Throw element_exn v
                 | Some x \<Rightarrow>
                     (let nb0 = (rm_buffer new_data)[offset := Some x] in
                      if is_nothrow_move_constructible env \<or> \<not> is_copy_constructible env then
                        (case uninitialized_move_n env (GetAddress v) 0 offset nb0 0 of
                           (False, ob1, nb1) \<Rightarrow> Throw element_exn (with_buffer v ob1)
                         | (True, ob1, nb1) \<Rightarrow>
                             (case uninitialized_move_n env ob1 offset (v_size v - offset)
                                     nb1 (offset + 1) of
                                (False, ob2, nb2) \<Rightarrow> Throw element_exn (with_buffer v ob2)
                              | (True, ob2, nb2) \<Rightarrow>
                                  Return offset
                                    ((swap_in v ob2 (new_data\<lparr>rm_buffer := nb2\<rparr>))
                                       \<lparr>v_size := v_size v + 1\<rparr>)))
                      else
                        (case uninitialized_copy_n env (GetAddress v) 0 offset nb0 0 of
                           (False, nb1) \<Rightarrow> Throw element_exn v
                         | (True, nb1) \<Rightarrow>
                             (case uninitialized_copy_n env (GetAddress v) offset
                                     (v_size v - offset) nb1 (offset + 1) of
                                (False, nb2) \<Rightarrow> Throw element_exn v
                              | (True, nb2) \<Rightarrow>
                                  Return offset
                                    ((swap_in v (GetAddress v) (new_data\<lparr>rm_buffer := nb2\<rparr>))
                                       \<lparr>v_size := v_size v + 1\<rparr>))))))
         else if pos = int (v_size v) then
           (case construct_element env (GetAddress v) args of
              None \<Rightarrow> Throw element_exn v
            | Some x \<Rightarrow>
                Return offset
                  ((with_buffer v ((GetAddress v)[offset := Some x]))\<lparr>v_size := v_size v + 1\<rparr>))
         else
           (case construct_element env (GetAddress v) args of
              None \<Rightarrow> Throw element_exn v
            | Some temp_val \<Rightarrow>
                (let tail_elem = the (GetAddress v ! (v_size v - 1)) in
                 if move_ctor_throws env tail_elem then Throw element_exn v
                 else
                   (let b1 = (GetAddress v)[v_size v := Some tail_elem,
                                            v_size v - 1 := Some (moved_from env tail_elem)] in
                    case std_move_backward env b1 (v_size v - 1) (v_size v - 1 - offset)
                           (v_size v) of
                      (False, b2) \<Rightarrow> Throw element_exn (with_buffer v b2)
                    | (True, b2) \<Rightarrow>
                        if move_assign_throws env (the (b2 ! offset)) temp_val
                        then Throw element_exn (with_buffer v b2)
                        else
                          Return offset
                            ((with_buffer v (b2[offset := Some temp_val]))
                               \<lparr>v_size := v_size v + 1\<rparr>))))))"

definition Insert ::
  "('a, 'g) env \<Rightarrow> int \<Rightarrow> ('a, 'g) arg \<Rightarrow> 'a Vector \<Rightarrow> (nat, 'a Vector) outcome" where
  "Insert env pos val v = Emplace env pos val v"

definition Erase :: "('a, 'g) env \<Rightarrow> int \<Rightarrow> 'a Vector \<Rightarrow> (nat, 'a Vector) outcome" where
  "Erase env pos v =
     (if \<not> (0 \<le> pos \<and> pos < int (v_size v)) then AssertFail
      else
        (let shift = nat pos in
         case std_move env (GetAddress v) (shift + 1) (v_size v - (shift + 1)) shift of
           (False, b) \<Rightarrow> Throw element_exn (with_buffer v b)
         | (True, b) \<Rightarrow>
             (case PopBack (with_buffer v b) of
                Return u v' \<Rightarrow> Return shift v'
              | Throw e v' \<Rightarrow> Throw e v'
              | AssertFail \<Rightarrow> AssertFail)))"

text \<open>
  The right-hand side of an assignment is the object itself or another object; the test
  \<^verbatim>\<open>this != &rhs\<close> tells them apart.
\<close>

datatype 'a operand = This | Other "'a Vector"

definition handleAssignment ::
  "('a, 'g) env \<Rightarrow> 'a Vector \<Rightarrow> 'a Vector \<Rightarrow> (unit, 'a Vector) outcome" where
  "handleAssignment env rhs v =
     (let min_size = min (v_size v) (v_size rhs) in
      case std_copy env (GetAddress rhs) 0 min_size (GetAddress v) 0 of
        (False, b) \<Rightarrow> Throw element_exn (with_buffer v b)
      | (True, b) \<Rightarrow>
          if v_size rhs < v_size v then
            Return () (with_buffer v (destroy_n b (v_size rhs) (v_size v - v_size rhs)))
          else
            (case uninitialized_copy_n env (GetAddress rhs) min_size (v_size rhs - min_size)
                    b min_size of
               (False, b') \<Rightarrow> Throw element_exn (with_buffer v b')
             | (True, b') \<Rightarrow> Return () (with_buffer v b')))"

definition copy_assign ::
  "('a, 'g) env \<Rightarrow> 'a operand \<Rightarrow> 'a Vector \<Rightarrow> (unit, 'a Vector) outcome" where
  "copy_assign env rhs v =
     (case rhs of
        This \<Rightarrow> Return () v
      | Other r \<Rightarrow>
          if v_size r > rm_capacity (v_data v) then
            (case Vector_copy env r of
               Inl e \<Rightarrow> Throw e v
             | Inr rhs_copy \<Rightarrow>
                 (let (v', rhs_copy') = Swap v rhs_copy in Return () (v'\<lparr>v_size := v_size r\<rparr>)))
          else
            (case handleAssignment env r v of
               Return u v' \<Rightarrow> Return () (v'\<lparr>v_size := v_size r\<rparr>)
             | Throw e v' \<Rightarrow> Throw e v'
             | AssertFail \<Rightarrow> AssertFail))"

definition move_assign :: "'a operand \<Rightarrow> 'a Vector \<Rightarrow> 'a Vector \<times> 'a operand" where
  \<comment> \<open>the object assigned to and the moved-from right-hand side\<close>
  "move_assign rhs v =
     (case rhs of
        This \<Rightarrow> (v, This)
      | Other r \<Rightarrow> (let (v', r') = Swap v r in (v', Other r')))"

section \<open>The invariant\<close>

definition size_le_capacity :: "'a Vector \<Rightarrow> bool" where
  "size_le_capacity v \<longleftrightarrow> v_size v \<le> Capacity v"

text \<open>
  A well-formed vector owns a buffer of \<open>Capacity\<close> slots of which the first \<open>v_size\<close>
  hold objects.
\<close>

definition well_formed :: "'a Vector \<Rightarrow> bool" where
  "well_formed v \<longleftrightarrow>
     length (GetAddress v) = Capacity v \<and> v_size v \<le> Capacity v \<and>
     (\<forall>s \<in> set (take (v_size v) (GetAddress v)). s \<noteq> None)"

text \<open>The state an outcome carries, on return and on an exception alike.\<close>

fun after :: "('s \<Rightarrow> bool) \<Rightarrow> ('r, 's) outcome \<Rightarrow> bool" where
  "after P (Return r s) = P s"
| "after P (Throw e s) = P s"
| "after P AssertFail = True"

section \<open>Callers and concrete instances\<close>

text \<open>A run of \<^verbatim>\<open>PushBack\<close> calls on one vector, stopping at the first that does not return.\<close>

fun PushBack_all ::
  "('a, 'g) env \<Rightarrow> ('a, 'g) arg list \<Rightarrow> 'a Vector \<Rightarrow> (unit, 'a Vector) outcome" where
  "PushBack_all env [] v = Return () v"
| "PushBack_all env (a # as) v =
     (case PushBack env a v of
        Return u v' \<Rightarrow> PushBack_all env as v'
      | Throw e v' \<Rightarrow> Throw e v'
      | AssertFail \<Rightarrow> AssertFail)"

text \<open>
  \<open>int_env\<close> is \<^verbatim>\<open>T = int\<close>, of four bytes, with an allocator that never fails.
  \<open>fragile_env\<close> is an element type over \<open>int\<close> whose copy constructor and copy
  assignment throw on negative values, whose constructor from an \<open>int\<close> throws on zero, and
  whose move constructor may throw as well, so that relocation copies.
\<close>

definition int_env :: "(int, int) env" where
  "int_env =
     \<lparr>ctor = Some, value_init = Some 0,
      copy_ctor_throws = (\<lambda>x. False), move_ctor_throws = (\<lambda>x. False),
      copy_assign_throws = (\<lambda>y x. False), move_assign_throws = (\<lambda>y x. False),
      moved_from = (\<lambda>x. x), is_nothrow_move_constructible = True,
      is_copy_constructible = True, operator_new_fails = (\<lambda>n. False), sizeof_T = 4\<rparr>"

definition fragile_env :: "(int, int) env" where
  "fragile_env =
     \<lparr>ctor = (\<lambda>g. if g = 0 then None else Some g), value_init = Some 0,
      copy_ctor_throws = (\<lambda>x. x < 0), move_ctor_throws = (\<lambda>x. x < 0),
      copy_assign_throws = (\<lambda>y x. x < 0), move_assign_throws = (\<lambda>y x. False),
      moved_from = (\<lambda>x. x), is_nothrow_move_constructible = False,
      is_copy_constructible = True, operator_new_fails = (\<lambda>n. False), sizeof_T = 4\<rparr>"

definition vec :: "'a option list \<Rightarrow> nat \<Rightarrow> 'a Vector" where
  \<comment> \<open>the vector that owns the buffer \<open>b\<close> and has \<open>n\<close> elements\<close>
  "vec b n = \<lparr>v_data = \<lparr>rm_buffer = b, rm_capacity = length b\<rparr>, v_size = n\<rparr>"

section \<open>Well-formed vectors\<close>

lemma well_formed_iff:
  "well_formed v \<longleftrightarrow>
     length (GetAddress v) = Capacity v \<and> v_size v \<le> Capacity v \<and>
     (\<forall>i < v_size v. GetAddress v ! i \<noteq> None)"
proof -
  have "(\<forall>s \<in> set (take n b). s \<noteq> None) \<longleftrightarrow> (\<forall>i < n. b ! i \<noteq> None)"
    if "n \<le> length b" for n and b :: "'a option list"
    using that by (auto simp: set_conv_nth)
  then show ?thesis
    unfolding well_formed_def by (metis (no_types, lifting))
qed

lemma vec_simps [simp]:
  "v_size (vec b n) = n" "GetAddress (vec b n) = b" "Capacity (vec b n) = length b"
  by (simp_all add: vec_def GetAddress_def Capacity_def)

lemma with_buffer_simps [simp]:
  "v_size (with_buffer v b) = v_size v"
  "GetAddress (with_buffer v b) = b"
  "Capacity (with_buffer v b) = Capacity v"
  by (simp_all add: with_buffer_def GetAddress_def Capacity_def)

lemma v_size_update_simps [simp]:
  "GetAddress (v\<lparr>v_size := n\<rparr>) = GetAddress v"
  "Capacity (v\<lparr>v_size := n\<rparr>) = Capacity v"
  by (simp_all add: GetAddress_def Capacity_def)

section \<open>The algorithms: lengths, untouched slots, results\<close>

lemma length_destroy_n [simp]: "length (destroy_n b f n) = length b"
  by (induction n arbitrary: b f) simp_all

lemma nth_destroy_n:
  "f + n \<le> length b \<Longrightarrow> destroy_n b f n ! j = (if f \<le> j \<and> j < f + n then None else b ! j)"
  by (induction n arbitrary: b f) (auto simp: nth_list_update)

lemma take_destroy_n [simp]: "k \<le> f \<Longrightarrow> take k (destroy_n b f n) = take k b"
  by (induction n arbitrary: b f) simp_all

lemma ucopy_length:
  "uninitialized_copy_n env src f n dst r = (ok, d) \<Longrightarrow> length d = length dst"
proof (induction n arbitrary: dst f r ok d)
  case 0
  then show ?case by simp
next
  case (Suc n)
  obtain ok1 d1 where
    rec: "uninitialized_copy_n env src (Suc f) n (dst[r := Some (the (src ! f))]) (Suc r) = (ok1, d1)"
    by (cases "uninitialized_copy_n env src (Suc f) n (dst[r := Some (the (src ! f))]) (Suc r)")
  from Suc.IH [OF rec] Suc.prems rec show ?case
    by (cases ok1) (auto simp: Let_def split: if_splits)
qed

lemma ucopy_below:
  "uninitialized_copy_n env src f n dst r = (ok, d) \<Longrightarrow> j < r \<Longrightarrow> d ! j = dst ! j"
proof (induction n arbitrary: dst f r ok d)
  case 0
  then show ?case by simp
next
  case (Suc n)
  obtain ok1 d1 where
    rec: "uninitialized_copy_n env src (Suc f) n (dst[r := Some (the (src ! f))]) (Suc r) = (ok1, d1)"
    by (cases "uninitialized_copy_n env src (Suc f) n (dst[r := Some (the (src ! f))]) (Suc r)")
  from Suc.IH [OF rec] Suc.prems rec show ?case
    by (cases ok1) (auto simp: Let_def split: if_splits)
qed

lemma ucopy_success:
  "uninitialized_copy_n env src f n dst r = (True, d) \<Longrightarrow> r + n \<le> length dst \<Longrightarrow>
   (\<forall>k < n. d ! (r + k) = Some (the (src ! (f + k)))) \<and>
   (\<forall>j. j < r \<or> r + n \<le> j \<longrightarrow> d ! j = dst ! j)"
proof (induction n arbitrary: dst f r d)
  case 0
  then show ?case by auto
next
  case (Suc n)
  let ?dst1 = "dst[r := Some (the (src ! f))]"
  obtain ok1 d1 where rec: "uninitialized_copy_n env src (Suc f) n ?dst1 (Suc r) = (ok1, d1)"
    by (cases "uninitialized_copy_n env src (Suc f) n ?dst1 (Suc r)")
  with Suc.prems have ok1: "ok1" and d1: "d1 = d"
    by (cases ok1; simp add: Let_def split: if_splits)+
  from rec ok1 d1 have rec': "uninitialized_copy_n env src (Suc f) n ?dst1 (Suc r) = (True, d)"
    by simp
  from Suc.prems(2) have len: "Suc r + n \<le> length ?dst1"
    by simp
  note IH = Suc.IH [OF rec' len]
  have new: "d ! (r + k) = Some (the (src ! (f + k)))" if "k < Suc n" for k
  proof (cases k)
    case 0
    have "d ! r = ?dst1 ! r"
      using IH by simp
    with 0 Suc.prems(2) show ?thesis by simp
  next
    case (Suc k')
    with that IH show ?thesis by simp
  qed
  have old: "d ! j = dst ! j" if "j < r \<or> r + Suc n \<le> j" for j
  proof -
    from that IH have "d ! j = ?dst1 ! j" by auto
    with that show ?thesis by auto
  qed
  from new old show ?case by blast
qed

lemma umove_length:
  "uninitialized_move_n env src f n dst r = (ok, s, d) \<Longrightarrow>
   length s = length src \<and> length d = length dst"
proof (induction n arbitrary: src dst f r ok s d)
  case 0
  then show ?case by simp
next
  case (Suc n)
  let ?x = "the (src ! f)"
  obtain ok1 s1 d1 where
    rec: "uninitialized_move_n env (src[f := Some (moved_from env ?x)]) (Suc f) n
            (dst[r := Some ?x]) (Suc r) = (ok1, s1, d1)"
    using prod_cases3 by blast
  from Suc.IH [OF rec] Suc.prems rec show ?case
    by (cases ok1) (auto simp: Let_def split: if_splits)
qed

lemma umove_success:
  "uninitialized_move_n env src f n dst r = (True, s, d) \<Longrightarrow> r + n \<le> length dst \<Longrightarrow>
   (\<forall>k < n. d ! (r + k) = Some (the (src ! (f + k)))) \<and>
   (\<forall>j. j < r \<or> r + n \<le> j \<longrightarrow> d ! j = dst ! j)"
proof (induction n arbitrary: src dst f r s d)
  case 0
  then show ?case by auto
next
  case (Suc n)
  let ?x = "the (src ! f)"
  let ?src1 = "src[f := Some (moved_from env ?x)]"
  let ?dst1 = "dst[r := Some ?x]"
  obtain ok1 s1 d1 where
    rec: "uninitialized_move_n env ?src1 (Suc f) n ?dst1 (Suc r) = (ok1, s1, d1)"
    using prod_cases3 by blast
  with Suc.prems have "ok1" "s1 = s" "d1 = d"
    by (cases ok1; simp add: Let_def split: if_splits)+
  with rec have rec': "uninitialized_move_n env ?src1 (Suc f) n ?dst1 (Suc r) = (True, s, d)"
    by simp
  from Suc.prems(2) have len: "Suc r + n \<le> length ?dst1"
    by simp
  note IH = Suc.IH [OF rec' len]
  have new: "d ! (r + k) = Some (the (src ! (f + k)))" if "k < Suc n" for k
  proof (cases k)
    case 0
    have "d ! r = ?dst1 ! r"
      using IH by simp
    with 0 Suc.prems(2) show ?thesis by simp
  next
    case (Suc k')
    with that IH show ?thesis by simp
  qed
  have old: "d ! j = dst ! j" if "j < r \<or> r + Suc n \<le> j" for j
  proof -
    from that IH have "d ! j = ?dst1 ! j" by auto
    with that show ?thesis by auto
  qed
  from new old show ?case by blast
qed

lemma umove_nothrow:
  "\<forall>x. \<not> move_ctor_throws env x \<Longrightarrow> fst (uninitialized_move_n env src f n dst r)"
proof (induction n arbitrary: src dst f r)
  case 0
  then show ?case by simp
next
  case (Suc n)
  let ?x = "the (src ! f)"
  obtain ok1 s1 d1 where
    rec: "uninitialized_move_n env (src[f := Some (moved_from env ?x)]) (Suc f) n
            (dst[r := Some ?x]) (Suc r) = (ok1, s1, d1)"
    using prod_cases3 by blast
  from Suc.IH [OF Suc.prems, of "src[f := Some (moved_from env ?x)]" "Suc f" "dst[r := Some ?x]" "Suc r"]
    rec Suc.prems show ?case
    by (simp add: Let_def)
qed

lemma update_live: "b ! j \<noteq> None \<Longrightarrow> b[i := Some x] ! j \<noteq> None"
  by (cases "i < length b") (auto simp: nth_list_update list_update_beyond)

lemma std_copy_length:
  "std_copy env src f n dst r = (ok, d) \<Longrightarrow> length d = length dst"
  by (induction n arbitrary: dst f r) (auto simp: Let_def split: if_splits)

lemma std_copy_outside:
  "std_copy env src f n dst r = (ok, d) \<Longrightarrow> j < r \<or> r + n \<le> j \<Longrightarrow> d ! j = dst ! j"
  by (induction n arbitrary: dst f r) (auto simp: Let_def split: if_splits)

lemma std_copy_live:
  "std_copy env src f n dst r = (ok, d) \<Longrightarrow> dst ! j \<noteq> None \<Longrightarrow> d ! j \<noteq> None"
proof (induction n arbitrary: dst f r)
  case 0
  then show ?case by simp
next
  case (Suc n)
  have "dst[r := Some (the (src ! f))] ! j \<noteq> None"
    using Suc.prems(2) by (rule update_live)
  with Suc.IH Suc.prems show ?case
    by (auto simp: Let_def split: if_splits)
qed

lemma std_copy_success:
  "std_copy env src f n dst r = (True, d) \<Longrightarrow> r + n \<le> length dst \<Longrightarrow>
   k < n \<Longrightarrow> d ! (r + k) = Some (the (src ! (f + k)))"
proof (induction n arbitrary: dst f r k)
  case 0
  then show ?case by simp
next
  case (Suc n)
  let ?dst1 = "dst[r := Some (the (src ! f))]"
  from Suc.prems(1) have rec: "std_copy env src (Suc f) n ?dst1 (Suc r) = (True, d)"
    by (simp add: Let_def split: if_splits)
  show ?case
  proof (cases k)
    case 0
    from std_copy_outside [OF rec, of r] have "d ! r = ?dst1 ! r"
      by simp
    with 0 Suc.prems(2) show ?thesis by simp
  next
    case (Suc k')
    with Suc.IH [OF rec, of k'] Suc.prems(2,3) show ?thesis by simp
  qed
qed

lemma std_move_length:
  "std_move env b f n r = (ok, b') \<Longrightarrow> length b' = length b"
  by (induction n arbitrary: b f r) (auto simp: Let_def split: if_splits)

lemma std_move_success:
  "std_move env b (Suc r) n r = (True, b') \<Longrightarrow> Suc r + n \<le> length b \<Longrightarrow>
   (\<forall>k < n. b' ! (r + k) = Some (the (b ! (Suc r + k)))) \<and> (\<forall>j < r. b' ! j = b ! j)"
proof (induction n arbitrary: b r)
  case 0
  then show ?case by simp
next
  case (Suc n)
  let ?x = "the (b ! Suc r)"
  let ?b1 = "b[r := Some ?x, Suc r := Some (moved_from env ?x)]"
  from Suc.prems(1) have rec: "std_move env ?b1 (Suc (Suc r)) n (Suc r) = (True, b')"
    by (simp add: Let_def split: if_splits)
  from Suc.prems(2) have len: "Suc (Suc r) + n \<le> length ?b1"
    by simp
  note IH = Suc.IH [OF rec len]
  have new: "b' ! (r + k) = Some (the (b ! (Suc r + k)))" if "k < Suc n" for k
  proof (cases k)
    case 0
    from IH have "b' ! r = ?b1 ! r" by simp
    with 0 Suc.prems(2) show ?thesis by simp
  next
    case (Suc k')
    with that IH have "b' ! (r + k) = Some (the (?b1 ! (Suc (Suc r) + k')))"
      by simp
    with Suc show ?thesis by simp
  qed
  have old: "b' ! j = b ! j" if "j < r" for j
  proof -
    from that IH have "b' ! j = ?b1 ! j" by simp
    with that show ?thesis by simp
  qed
  from new old show ?case by blast
qed

lemma std_move_backward_length:
  "std_move_backward env b l n dl = (ok, b') \<Longrightarrow> length b' = length b"
  by (induction n arbitrary: b l dl) (auto simp: Let_def split: if_splits)

lemma std_move_backward_success:
  "std_move_backward env b (p + n) n (Suc (p + n)) = (True, b') \<Longrightarrow> p + n < length b \<Longrightarrow>
   (\<forall>k < n. b' ! (Suc p + k) = Some (the (b ! (p + k)))) \<and>
   (\<forall>j. j < p \<or> p + n < j \<longrightarrow> b' ! j = b ! j)"
proof (induction n arbitrary: b)
  case 0
  then show ?case by simp
next
  case (Suc n)
  let ?x = "the (b ! (p + n))"
  let ?b1 = "b[p + Suc n := Some ?x, p + n := Some (moved_from env ?x)]"
  from Suc.prems(1) have rec: "std_move_backward env ?b1 (p + n) n (Suc (p + n)) = (True, b')"
    by (simp add: Let_def split: if_splits)
  from Suc.prems(2) have len: "p + n < length ?b1"
    by simp
  note IH = Suc.IH [OF rec len]
  have new: "b' ! (Suc p + k) = Some (the (b ! (p + k)))" if "k < Suc n" for k
  proof (cases "k = n")
    case True
    from IH have "b' ! (Suc p + n) = ?b1 ! (Suc p + n)" by simp
    with True Suc.prems(2) show ?thesis by simp
  next
    case False
    with that have "k < n" by simp
    with IH have "b' ! (Suc p + k) = Some (the (?b1 ! (p + k)))"
      by simp
    with \<open>k < n\<close> show ?thesis by simp
  qed
  have old: "b' ! j = b ! j" if "j < p \<or> p + Suc n < j" for j
  proof -
    from that IH have "b' ! j = ?b1 ! j" by auto
    with that show ?thesis by auto
  qed
  from new old show ?case by blast
qed

section \<open>PopBack\<close>

lemma elems_butlast:
  "n \<le> length b \<Longrightarrow> map the (take (n - 1) (b[n - 1 := None])) = butlast (map the (take n b))"
  by (simp add: butlast_take flip: map_butlast)

text \<open>
  C9. \<^verbatim>\<open>PopBack\<close> on a non-empty vector returns, having destroyed the object in the last
  live slot and nothing else: the size is one less, the capacity is the same and the
  buffer differs in that one slot only; on a well-formed vector the elements before the
  last are as they were. On an empty vector it returns and the vector is unchanged. No
  outcome of \<^verbatim>\<open>PopBack\<close> is an exception or a failed assertion.
\<close>

theorem PopBack_spec:
  "(0 < v_size v \<longrightarrow>
      (\<exists>v'. PopBack v = Return () v' \<and>
            v_size v' = v_size v - 1 \<and>
            Capacity v' = Capacity v \<and>
            GetAddress v' = (GetAddress v)[v_size v - 1 := None] \<and>
            (well_formed v \<longrightarrow> well_formed v' \<and> elems v' = butlast (elems v)))) \<and>
   (v_size v = 0 \<longrightarrow> PopBack v = Return () v)"
proof (intro conjI impI)
  assume pos: "0 < v_size v"
  define v' where
    "v' = (with_buffer v ((GetAddress v)[v_size v - 1 := None]))\<lparr>v_size := v_size v - 1\<rparr>"
  have r: "PopBack v = Return () v'"
    using pos by (simp add: PopBack_def v'_def)
  have s: "v_size v' = v_size v - 1" and c: "Capacity v' = Capacity v"
    and b: "GetAddress v' = (GetAddress v)[v_size v - 1 := None]"
    by (simp_all add: v'_def)
  have w: "well_formed v' \<and> elems v' = butlast (elems v)" if "well_formed v"
  proof
    from that show "well_formed v'"
      by (auto simp: well_formed_iff s c b)
    from that have "v_size v \<le> length (GetAddress v)"
      by (simp add: well_formed_iff)
    then show "elems v' = butlast (elems v)"
      unfolding elems_def s b by (rule elems_butlast)
  qed
  from r s c b w show "\<exists>v'. PopBack v = Return () v' \<and>
            v_size v' = v_size v - 1 \<and>
            Capacity v' = Capacity v \<and>
            GetAddress v' = (GetAddress v)[v_size v - 1 := None] \<and>
            (well_formed v \<longrightarrow> well_formed v' \<and> elems v' = butlast (elems v))"
    by blast
next
  assume "v_size v = 0"
  then show "PopBack v = Return () v"
    by (simp add: PopBack_def)
qed

theorem PopBack_spec_witness:
  "0 < v_size (vec [Some (1::int), Some 2, None] 2) \<and>
   well_formed (vec [Some (1::int), Some 2, None] 2) \<and>
   PopBack (vec [Some (1::int), Some 2, None] 2) = Return () (vec [Some 1, None, None] 1) \<and>
   elems (vec [Some (1::int), None, None] 1) = butlast (elems (vec [Some 1, Some 2, None] 2)) \<and>
   v_size (vec [None :: int option] 0) = 0 \<and>
   PopBack (vec [None :: int option] 0) = Return () (vec [None] 0)"
  using PopBack_spec [of "vec [Some (1::int), Some 2, None] 2"]
    PopBack_spec [of "vec [None :: int option] 0"]
  by (simp add: well_formed_def elems_def PopBack_def) (simp add: vec_def with_buffer_def)

section \<open>Operations: storage\<close>

lemma swap_in_simps [simp]:
  "Capacity (swap_in v ob nd) = rm_capacity nd"
  "GetAddress (swap_in v ob nd) = rm_buffer nd"
  "v_size (swap_in v ob nd) = v_size v"
  by (simp_all add: swap_in_def RawMemory_Swap_def Capacity_def GetAddress_def)

lemma RawMemory_sized_eq:
  "RawMemory_sized env n =
     (if n \<noteq> 0 \<and> operator_new_fails env n then None
      else Some \<lparr>rm_buffer = replicate (byte_count env n div sizeof_T env) None,
                  rm_capacity = n\<rparr>)"
  by (simp add: RawMemory_sized_def Allocate_def byte_count_def)

lemma byte_count_fits:
  "0 < sizeof_T env \<Longrightarrow> n * sizeof_T env < 2 ^ 64 \<Longrightarrow> byte_count env n div sizeof_T env = n"
  by (simp add: byte_count_def)

lemma RawMemory_sized_fitting:
  "0 < sizeof_T env \<Longrightarrow> n * sizeof_T env < 2 ^ 64 \<Longrightarrow>
   RawMemory_sized env n = RawMemory_fitting env n"
  by (simp add: RawMemory_sized_eq RawMemory_fitting_def byte_count_fits)

text \<open>
  The requests of the growth paths and of the copy constructor fit: the block of a vector
  has at most \<^verbatim>\<open>PTRDIFF_MAX\<close> bytes, and twice as many are less than \<open>2 ^ 64\<close>.
\<close>

lemma growth_request_fits:
  assumes "0 < sizeof_T env" and "sizeof_T env < 2 ^ 63"
    and "v_size v \<le> Capacity v" and "Capacity v * sizeof_T env < 2 ^ 63"
  shows "RawMemory_sized env (if v_size v = 0 then 1 else v_size v * 2)
           = RawMemory_fitting env (if v_size v = 0 then 1 else v_size v * 2)"
    and "RawMemory_sized env (v_size v) = RawMemory_fitting env (v_size v)"
proof -
  from assms(3) have "v_size v * sizeof_T env \<le> Capacity v * sizeof_T env"
    by (rule mult_le_mono1)
  from this assms(4) have *: "v_size v * sizeof_T env < 2 ^ 63"
    by (rule le_less_trans)
  then have "(if v_size v = 0 then 1 else v_size v * 2) * sizeof_T env < 2 ^ 64"
    using assms(2) by simp
  with assms(1)
  show "RawMemory_sized env (if v_size v = 0 then 1 else v_size v * 2)
           = RawMemory_fitting env (if v_size v = 0 then 1 else v_size v * 2)"
    by (rule RawMemory_sized_fitting)
  from * have "v_size v * sizeof_T env < 2 ^ 64"
    by simp
  with assms(1) show "RawMemory_sized env (v_size v) = RawMemory_fitting env (v_size v)"
    by (rule RawMemory_sized_fitting)
qed

lemma PopBack_cases:
  "PopBack v = Return () (if 0 < v_size v
     then (with_buffer v ((GetAddress v)[v_size v - 1 := None]))\<lparr>v_size := v_size v - 1\<rparr> else v)"
  by (simp add: PopBack_def)

lemma Erase_storage:
  "after (\<lambda>v'. Capacity v' = Capacity v \<and> length (GetAddress v') = length (GetAddress v))
     (Erase env pos v)"
proof (cases "0 \<le> pos \<and> pos < int (v_size v)")
  case False
  then show ?thesis by (simp add: Erase_def)
next
  case True
  obtain ok b where
    m: "std_move env (GetAddress v) (nat pos + 1) (v_size v - (nat pos + 1)) (nat pos) = (ok, b)"
    by (cases "std_move env (GetAddress v) (nat pos + 1) (v_size v - (nat pos + 1)) (nat pos)")
  from std_move_length [OF m] have "length b = length (GetAddress v)" .
  with True m show ?thesis
    by (cases ok) (simp_all add: Erase_def PopBack_cases)
qed

text \<open>
  C10. No shrinking operation releases or shrinks the storage. \<^verbatim>\<open>Resize(new_size)\<close> with
  \<open>new_size \<le> size\<close> returns with the size set to \<open>new_size\<close>, \<^verbatim>\<open>PopBack\<close> returns, and
  \<^verbatim>\<open>Erase\<close> returns or throws: in each case the capacity and the number of slots of the
  buffer are what they were before the call.
\<close>

theorem shrinking_keeps_capacity:
  "(new_size \<le> v_size v \<longrightarrow>
      (\<exists>v'. Resize env new_size v = Return () v' \<and> v_size v' = new_size \<and>
            Capacity v' = Capacity v \<and> length (GetAddress v') = length (GetAddress v))) \<and>
   (\<exists>v'. PopBack v = Return () v' \<and>
         Capacity v' = Capacity v \<and> length (GetAddress v') = length (GetAddress v)) \<and>
   after (\<lambda>v'. Capacity v' = Capacity v \<and> length (GetAddress v') = length (GetAddress v))
     (Erase env pos v)"
proof (intro conjI impI)
  assume "new_size \<le> v_size v"
  then show "\<exists>v'. Resize env new_size v = Return () v' \<and> v_size v' = new_size \<and>
            Capacity v' = Capacity v \<and> length (GetAddress v') = length (GetAddress v)"
    by (simp add: Resize_def)
next
  show "\<exists>v'. PopBack v = Return () v' \<and>
         Capacity v' = Capacity v \<and> length (GetAddress v') = length (GetAddress v)"
    by (simp add: PopBack_cases)
next
  show "after (\<lambda>v'. Capacity v' = Capacity v \<and> length (GetAddress v') = length (GetAddress v))
     (Erase env pos v)"
    by (rule Erase_storage)
qed

theorem shrinking_keeps_capacity_witness:
  "(1::nat) \<le> v_size (vec [Some (1::int), Some 2, None] 2) \<and>
   Resize int_env 1 (vec [Some (1::int), Some 2, None] 2) = Return () (vec [Some 1, None, None] 1) \<and>
   Erase int_env 0 (vec [Some (1::int), Some 2, None] 2) = Return 0 (vec [Some 2, None, None] 1) \<and>
   Capacity (vec [Some (2::int), None, None] 1) = Capacity (vec [Some (1::int), Some 2, None] 2)"
  using shrinking_keeps_capacity [of 1 "vec [Some (1::int), Some 2, None] 2" int_env 0]
  by (simp add: Resize_def Erase_def PopBack_def int_env_def)
    (simp add: vec_def with_buffer_def)

section \<open>EmplaceBack: the strong guarantee\<close>

lemma umove_truthful:
  assumes "is_nothrow_move_constructible env \<longrightarrow> (\<forall>x. \<not> move_ctor_throws env x)"
    and "is_nothrow_move_constructible env \<or> is_copy_constructible env"
    and "is_nothrow_move_constructible env \<or> \<not> is_copy_constructible env"
  shows "uninitialized_move_n env src f n dst r \<noteq> (False, s, d)"
proof -
  from assms have "\<forall>x. \<not> move_ctor_throws env x" by blast
  from umove_nothrow [OF this, of src f n dst r] show ?thesis by auto
qed

lemma EmplaceBack_ctor_throws:
  assumes "construct_element env (GetAddress v) args = None"
  shows "\<exists>e. EmplaceBack env args v = Throw e v"
  using assms by (simp add: EmplaceBack_def split: option.splits)

lemma EmplaceBack_throw_unchanged:
  assumes t: "is_nothrow_move_constructible env \<longrightarrow> (\<forall>x. \<not> move_ctor_throws env x)"
    and c: "is_nothrow_move_constructible env \<or> is_copy_constructible env"
    and e: "EmplaceBack env args v = Throw e v'"
  shows "v' = v"
proof (cases "is_nothrow_move_constructible env \<or> \<not> is_copy_constructible env")
  case True
  note umove_truthful [OF t c True, simp]
  from e True show ?thesis
    by (auto simp: EmplaceBack_def Let_def split: if_splits option.splits prod.splits bool.splits)
next
  case False
  with e show ?thesis
    by (auto simp: EmplaceBack_def Let_def split: if_splits option.splits prod.splits bool.splits)
qed

lemma PushBack_Throw_iff: "PushBack env a v = Throw e v' \<longleftrightarrow> EmplaceBack env a v = Throw e v'"
  by (simp add: PushBack_def split: outcome.splits)

text \<open>
  C1. When the constructor of the new element throws, \<^verbatim>\<open>EmplaceBack\<close> and \<^verbatim>\<open>PushBack\<close>
  leave by an exception and the vector is the one before the call, with or without growth
  (if growth was due and the allocation failed first, the exception is that of the
  allocation, and the vector is unchanged all the same). Beyond the new element: when
  relocation copies, or moves with a move constructor that keeps its \<^verbatim>\<open>noexcept\<close> promise,
  every exception that leaves \<^verbatim>\<open>EmplaceBack\<close> or \<^verbatim>\<open>PushBack\<close> leaves the vector unchanged.
\<close>

theorem EmplaceBack_strong_guarantee:
  "(construct_element env (GetAddress v) args = None \<longrightarrow>
      (\<exists>e. EmplaceBack env args v = Throw e v) \<and> (\<exists>e. PushBack env args v = Throw e v)) \<and>
   ((is_nothrow_move_constructible env \<longrightarrow> (\<forall>x. \<not> move_ctor_throws env x)) \<and>
    (is_nothrow_move_constructible env \<or> is_copy_constructible env) \<longrightarrow>
      (\<forall>e v'. EmplaceBack env args v = Throw e v' \<or> PushBack env args v = Throw e v'
         \<longrightarrow> v' = v))"
proof (intro conjI impI allI)
  assume "construct_element env (GetAddress v) args = None"
  from EmplaceBack_ctor_throws [OF this]
  show "\<exists>e. EmplaceBack env args v = Throw e v" "\<exists>e. PushBack env args v = Throw e v"
    by (auto simp: PushBack_Throw_iff)
next
  fix e v'
  assume "(is_nothrow_move_constructible env \<longrightarrow> (\<forall>x. \<not> move_ctor_throws env x)) \<and>
    (is_nothrow_move_constructible env \<or> is_copy_constructible env)"
    and "EmplaceBack env args v = Throw e v' \<or> PushBack env args v = Throw e v'"
  then show "v' = v"
    using EmplaceBack_throw_unchanged [of env args v e v'] by (auto simp: PushBack_Throw_iff)
qed

theorem EmplaceBack_strong_guarantee_witness:
  "construct_element fragile_env (GetAddress (vec [Some 5, Some 6] 2)) (Args 0) = None \<and>
   EmplaceBack fragile_env (Args 0) (vec [Some 5, Some 6] 2)
     = Throw element_exn (vec [Some 5, Some 6] 2) \<and>
   PushBack fragile_env (Args 0) (vec [Some 5, Some 6, None] 2)
     = Throw element_exn (vec [Some 5, Some 6, None] 2) \<and>
   \<not> is_nothrow_move_constructible fragile_env \<and> is_copy_constructible fragile_env \<and>
   EmplaceBack fragile_env (Args 7) (vec [Some 5, Some (- 6)] 2)
     = Throw element_exn (vec [Some 5, Some (- 6)] 2)"
proof -
  have a: "construct_element fragile_env (GetAddress (vec [Some 5, Some 6] 2)) (Args 0) = None"
    and b: "construct_element fragile_env (GetAddress (vec [Some 5, Some 6, None] 2)) (Args 0) = None"
    by (simp_all add: construct_element_def fragile_env_def)
  have c: "\<not> is_nothrow_move_constructible fragile_env" "is_copy_constructible fragile_env"
    by (simp_all add: fragile_env_def)
  have d: "EmplaceBack fragile_env (Args 7) (vec [Some 5, Some (- 6)] 2)
     = Throw element_exn (vec [Some 5, Some (- 6)] 2)"
    by code_simp
  have e': "EmplaceBack fragile_env (Args 0) (vec [Some 5, Some 6] 2)
     = Throw element_exn (vec [Some 5, Some 6] 2)"
    by code_simp
  have f': "PushBack fragile_env (Args 0) (vec [Some 5, Some 6, None] 2)
     = Throw element_exn (vec [Some 5, Some 6, None] 2)"
    by code_simp
  from EmplaceBack_strong_guarantee [of fragile_env "vec [Some 5, Some 6] 2" "Args 0"]
    EmplaceBack_strong_guarantee [of fragile_env "vec [Some 5, Some (- 6)] 2" "Args 7"]
    a b c d e' f'
  show ?thesis by simp
qed

section \<open>Reserve\<close>

lemma ucopy_nothrow:
  "\<forall>x. \<not> copy_ctor_throws env x \<Longrightarrow> fst (uninitialized_copy_n env src f n dst r)"
proof (induction n arbitrary: dst f r)
  case 0
  then show ?case by simp
next
  case (Suc n)
  let ?dst1 = "dst[r := Some (the (src ! f))]"
  obtain ok1 d1 where rec: "uninitialized_copy_n env src (Suc f) n ?dst1 (Suc r) = (ok1, d1)"
    by (cases "uninitialized_copy_n env src (Suc f) n ?dst1 (Suc r)")
  from Suc.IH [OF Suc.prems, of "Suc f" ?dst1 "Suc r"] rec Suc.prems show ?case
    by (simp add: Let_def)
qed

lemma ucopy_never_False:
  "\<forall>x. \<not> copy_ctor_throws env x \<Longrightarrow> uninitialized_copy_n env src f n dst r \<noteq> (False, d)"
  using ucopy_nothrow [of env src f n dst r] by auto

lemma umove_never_False:
  "\<forall>x. \<not> move_ctor_throws env x \<Longrightarrow> uninitialized_move_n env src f n dst r \<noteq> (False, s, d)"
  using umove_nothrow [of env src f n dst r] by auto

lemma elems_eqI:
  assumes "v_size v' = v_size v"
    and "v_size v \<le> length (GetAddress v)" and "v_size v \<le> length (GetAddress v')"
    and "\<And>j. j < v_size v \<Longrightarrow> the (GetAddress v' ! j) = the (GetAddress v ! j)"
  shows "elems v' = elems v"
  unfolding elems_def using assms by (intro nth_equalityI) simp_all

lemma well_formedI:
  assumes "length (GetAddress v) = Capacity v" and "v_size v \<le> Capacity v"
    and "\<And>j. j < v_size v \<Longrightarrow> GetAddress v ! j \<noteq> None"
  shows "well_formed v"
  using assms by (simp add: well_formed_iff)

lemma well_formedD:
  assumes "well_formed v"
  shows "length (GetAddress v) = Capacity v" and "v_size v \<le> Capacity v"
    and "v_size v \<le> length (GetAddress v)"
    and "\<And>j. j < v_size v \<Longrightarrow> GetAddress v ! j \<noteq> None"
  using assms by (simp_all add: well_formed_iff)

lemma Reserve_noop: "new_capacity \<le> Capacity v \<Longrightarrow> Reserve env new_capacity v = Return () v"
  by (simp add: Reserve_def Capacity_def)

text \<open>
  A larger \<open>new_capacity\<close> whose byte count fits \<^verbatim>\<open>size_t\<close>: when \<^verbatim>\<open>Reserve\<close> returns, the
  capacity is exactly \<open>new_capacity\<close>, and the size and the elements are unchanged.
\<close>

lemma Reserve_grows:
  assumes gt: "Capacity v < new_capacity" and wf: "well_formed v"
    and ret: "Reserve env new_capacity v = Return u v'"
    and fit: "0 < sizeof_T env" "new_capacity * sizeof_T env < 2 ^ 64"
  shows "Capacity v' = new_capacity \<and> v_size v' = v_size v \<and> elems v' = elems v \<and>
         well_formed v'"
proof -
  let ?nd = "\<lparr>rm_buffer = replicate new_capacity None, rm_capacity = new_capacity\<rparr> :: 'a RawMemory"
  from gt ret fit have alloc: "RawMemory_sized env new_capacity = Some ?nd"
    by (auto simp: Reserve_def Capacity_def RawMemory_sized_eq byte_count_fits split: if_splits)
  note wfD = well_formedD [OF wf]
  from gt wfD have fits: "0 + v_size v \<le> length (rm_buffer ?nd)"
    by simp
  have "Capacity v' = new_capacity \<and> v_size v' = v_size v \<and>
        length (GetAddress v') = new_capacity \<and>
        (\<forall>k < v_size v. GetAddress v' ! k = Some (the (GetAddress v ! k)))"
  proof (cases "is_nothrow_move_constructible env \<or> \<not> is_copy_constructible env")
    case True
    obtain ok ob nb where
      m: "uninitialized_move_n env (GetAddress v) 0 (v_size v) (rm_buffer ?nd) 0 = (ok, ob, nb)"
      using prod_cases3 by blast
    with gt ret alloc True have ok: "ok" and v': "v' = swap_in v ob (?nd\<lparr>rm_buffer := nb\<rparr>)"
      by (cases ok; auto simp: Reserve_def Capacity_def)+
    from m ok have
      "uninitialized_move_n env (GetAddress v) 0 (v_size v) (rm_buffer ?nd) 0 = (True, ob, nb)"
      by simp
    from umove_length [OF m] umove_success [OF this fits] v'
    show ?thesis
      by simp
  next
    case False
    obtain ok nb where
      m: "uninitialized_copy_n env (GetAddress v) 0 (v_size v) (rm_buffer ?nd) 0 = (ok, nb)"
      by (cases "uninitialized_copy_n env (GetAddress v) 0 (v_size v) (rm_buffer ?nd) 0")
    with gt ret alloc False have ok: "ok"
      and v': "v' = swap_in v (GetAddress v) (?nd\<lparr>rm_buffer := nb\<rparr>)"
      by (cases ok; auto simp: Reserve_def Capacity_def)+
    from m ok have
      "uninitialized_copy_n env (GetAddress v) 0 (v_size v) (rm_buffer ?nd) 0 = (True, nb)"
      by simp
    from ucopy_length [OF m] ucopy_success [OF this fits] v'
    show ?thesis
      by simp
  qed
  then have c: "Capacity v' = new_capacity" and s: "v_size v' = v_size v"
    and len: "length (GetAddress v') = new_capacity"
    and nth: "\<And>k. k < v_size v \<Longrightarrow> GetAddress v' ! k = Some (the (GetAddress v ! k))"
    by blast+
  have e: "elems v' = elems v"
    using s wfD gt len nth by (intro elems_eqI) simp_all
  have w: "well_formed v'"
    using wfD gt len nth by (intro well_formedI) (simp_all add: c s)
  from c s e w show ?thesis by simp
qed

lemma Reserve_returns:
  assumes "\<not> operator_new_fails env new_capacity"
    and "if is_nothrow_move_constructible env \<or> \<not> is_copy_constructible env
         then \<forall>x. \<not> move_ctor_throws env x else \<forall>x. \<not> copy_ctor_throws env x"
  shows "\<exists>v'. Reserve env new_capacity v = Return () v'"
proof (cases "is_nothrow_move_constructible env \<or> \<not> is_copy_constructible env")
  case True
  with assms(2) have "\<forall>x. \<not> move_ctor_throws env x" by simp
  from umove_never_False [OF this] True assms(1) show ?thesis
    by (auto simp: Reserve_def RawMemory_sized_eq split: prod.splits bool.splits)
next
  case False
  with assms(2) have "\<forall>x. \<not> copy_ctor_throws env x" by simp
  from ucopy_never_False [OF this] False assms(1) show ?thesis
    by (auto simp: Reserve_def RawMemory_sized_eq split: prod.splits bool.splits)
qed

text \<open>
  C7. \<^verbatim>\<open>Reserve(new_capacity)\<close> with \<open>new_capacity \<le> capacity\<close> returns the vector as it is,
  and with a larger \<open>new_capacity\<close> whose byte count fits \<^verbatim>\<open>size_t\<close> it does what is
  expected of it (the two lemmas above). Where the byte count wraps around it does not:
  for the vector \<open>[1, 2, 3]\<close> of \<^verbatim>\<open>int\<close> and \<open>new_capacity = 2 ^ 62 + 1\<close>, \<^verbatim>\<open>Allocate\<close>
  asks for \<open>(2 ^ 62 + 1) * 4 mod 2 ^ 64 = 4\<close> bytes and gets a block of one slot,
  \<^verbatim>\<open>capacity_\<close> becomes \<open>2 ^ 62 + 1\<close>, and three elements are relocated into the block of
  one: the second and the third are written beyond its end. \<^verbatim>\<open>Reserve\<close> returns a vector
  of size 3 on a block that holds one element.
\<close>

theorem Reserve_byte_count_wraps:
  "byte_count int_env 4611686018427387905 = 4 \<and>
   Reserve int_env 4611686018427387905 (vec [Some 1, Some 2, Some 3] 3)
     = Return ()
         \<lparr>v_data = \<lparr>rm_buffer = [Some 1], rm_capacity = 4611686018427387905\<rparr>, v_size = 3\<rparr> \<and>
   length (GetAddress
       \<lparr>v_data = \<lparr>rm_buffer = [Some (1::int)], rm_capacity = 4611686018427387905\<rparr>, v_size = 3\<rparr>)
     < v_size
       \<lparr>v_data = \<lparr>rm_buffer = [Some (1::int)], rm_capacity = 4611686018427387905\<rparr>, v_size = 3\<rparr>"
proof (intro conjI)
  show b: "byte_count int_env 4611686018427387905 = 4"
    by (simp add: byte_count_def int_env_def)
  have s: "sizeof_T int_env = 4" "\<not> operator_new_fails int_env 4611686018427387905"
    "is_nothrow_move_constructible int_env"
    by (simp_all add: int_env_def)
  have m: "uninitialized_move_n int_env [Some 1, Some 2, Some 3] 0 3 [None] 0
             = (True, [Some 1, Some 2, Some 3], [Some 1])"
    by code_simp
  have three: "(3::nat) = Suc (Suc (Suc 0))"
    by simp
  show "Reserve int_env 4611686018427387905 (vec [Some 1, Some 2, Some 3] 3)
     = Return ()
         \<lparr>v_data = \<lparr>rm_buffer = [Some 1], rm_capacity = 4611686018427387905\<rparr>, v_size = 3\<rparr>"
    using m by (simp add: Reserve_def RawMemory_sized_eq b s swap_in_def RawMemory_Swap_def)
      (simp add: vec_def GetAddress_def)
  show "length (GetAddress
       \<lparr>v_data = \<lparr>rm_buffer = [Some (1::int)], rm_capacity = 4611686018427387905\<rparr>, v_size = 3\<rparr>)
     < v_size
       \<lparr>v_data = \<lparr>rm_buffer = [Some (1::int)], rm_capacity = 4611686018427387905\<rparr>, v_size = 3\<rparr>"
    by (simp add: GetAddress_def)
qed

section \<open>The invariant \<open>size \<le> capacity\<close>\<close>

lemma after_mono: "after P out \<Longrightarrow> (\<And>s. P s \<Longrightarrow> Q s) \<Longrightarrow> after Q out"
  by (cases out) simp_all

lemma after_ReturnD: "after P out \<Longrightarrow> out = Return r s \<Longrightarrow> P s"
  by simp

lemma after_ThrowD: "after P out \<Longrightarrow> out = Throw e s \<Longrightarrow> P s"
  by simp

lemma Reserve_after:
  "after (\<lambda>v'. v_size v' = v_size v \<and> Capacity v \<le> Capacity v') (Reserve env n v)"
  by (cases "is_nothrow_move_constructible env \<or> \<not> is_copy_constructible env")
    (simp_all add: Reserve_def RawMemory_sized_eq split: prod.split bool.split
      flip: Capacity_def)

lemma Reserve_sizes:
  "Reserve env n v = Return u v1 \<Longrightarrow>
   n \<le> Capacity v1 \<and> Capacity v \<le> Capacity v1 \<and> v_size v1 = v_size v"
  by (cases "is_nothrow_move_constructible env \<or> \<not> is_copy_constructible env")
    (auto simp: Reserve_def RawMemory_sized_eq split: if_splits prod.splits bool.splits
      simp flip: Capacity_def)

lemma inv_Vector_default: "size_le_capacity Vector_default"
  by (simp add: size_le_capacity_def Vector_default_def RawMemory_default_def Capacity_def)

lemma Vector_sized_sizes: "Vector_sized env n = Inr v' \<Longrightarrow> v_size v' = n \<and> Capacity v' = n"
  by (auto simp: Vector_sized_def RawMemory_sized_eq Capacity_def
      split: if_splits prod.splits bool.splits)

lemma Vector_copy_sizes:
  "Vector_copy env other = Inr v' \<Longrightarrow> v_size v' = v_size other \<and> Capacity v' = v_size other"
  by (auto simp: Vector_copy_def RawMemory_fitting_def Capacity_def
      split: if_splits prod.splits bool.splits)

lemma Swap_eq: "Swap v other = (other, v)"
  by (simp add: Swap_def RawMemory_Swap_def)

lemma inv_Reserve: "size_le_capacity v \<Longrightarrow> after size_le_capacity (Reserve env n v)"
  by (rule after_mono [OF Reserve_after]) (simp add: size_le_capacity_def)

lemma inv_Resize: "size_le_capacity v \<Longrightarrow> after size_le_capacity (Resize env n v)"
proof (cases "n > v_size v")
  case False
  assume "size_le_capacity v"
  with False show ?thesis
    by (simp add: Resize_def size_le_capacity_def)
next
  case True
  assume inv: "size_le_capacity v"
  show ?thesis
  proof (cases "Reserve env n v")
    case (Return u v1)
    from Reserve_sizes [OF this] inv True Return show ?thesis
      by (simp add: Resize_def size_le_capacity_def split: prod.split bool.split)
  next
    case (Throw e v1)
    from after_ThrowD [OF Reserve_after this] inv True Throw show ?thesis
      by (simp add: Resize_def size_le_capacity_def)
  next
    case AssertFail
    with True show ?thesis by (simp add: Resize_def)
  qed
qed

lemma inv_EmplaceBack:
  "size_le_capacity v \<Longrightarrow> after size_le_capacity (EmplaceBack env args v)"
  by (cases "is_nothrow_move_constructible env \<or> \<not> is_copy_constructible env";
      cases "v_size v = Capacity v")
    (auto simp: EmplaceBack_def RawMemory_fitting_def size_le_capacity_def Let_def
      split: prod.split bool.split option.split)

lemma inv_PushBack:
  "size_le_capacity v \<Longrightarrow> after size_le_capacity (PushBack env args v)"
  using inv_EmplaceBack [of v env args]
  by (cases "EmplaceBack env args v") (simp_all add: PushBack_def)

lemma inv_PopBack: "size_le_capacity v \<Longrightarrow> after size_le_capacity (PopBack v)"
  by (auto simp: PopBack_cases size_le_capacity_def)

lemma inv_Emplace:
  "size_le_capacity v \<Longrightarrow> after size_le_capacity (Emplace env pos args v)"
  by (cases "is_nothrow_move_constructible env \<or> \<not> is_copy_constructible env";
      cases "v_size v = Capacity v"; cases "0 \<le> pos \<and> pos \<le> int (v_size v)";
      cases "pos = int (v_size v)")
    (auto simp: Emplace_def RawMemory_fitting_def size_le_capacity_def Let_def
      split: prod.split bool.split option.split)

lemma inv_Erase: "size_le_capacity v \<Longrightarrow> after size_le_capacity (Erase env pos v)"
  by (auto simp: Erase_def PopBack_cases size_le_capacity_def Let_def
      split: prod.split bool.split)

lemma handleAssignment_sizes:
  "after (\<lambda>v'. Capacity v' = Capacity v \<and> v_size v' = v_size v) (handleAssignment env r v)"
  by (simp add: handleAssignment_def Let_def split: prod.split bool.split)

lemma inv_copy_assign:
  "size_le_capacity v \<Longrightarrow> after size_le_capacity (copy_assign env rhs v)"
proof (cases rhs)
  case This
  assume "size_le_capacity v"
  with This show ?thesis by (simp add: copy_assign_def)
next
  case (Other r)
  assume inv: "size_le_capacity v"
  show ?thesis
  proof (cases "v_size r > rm_capacity (v_data v)")
    case True
    with Other inv show ?thesis
      by (auto simp: copy_assign_def Swap_eq size_le_capacity_def split: sum.splits
          dest: Vector_copy_sizes)
  next
    case False
    with Other inv handleAssignment_sizes [of v env r] show ?thesis
      by (cases "handleAssignment env r v")
        (auto simp: copy_assign_def size_le_capacity_def Capacity_def)
  qed
qed

lemma Vector_move_eq: "Vector_move other = (other, Vector_default)"
  by (simp add: Vector_move_def Swap_eq)

lemma move_assign_eq:
  "move_assign This v = (v, This)" "move_assign (Other r) v = (r, Other v)"
  by (simp_all add: move_assign_def Swap_eq)

text \<open>
  C8. \<open>size \<le> capacity\<close> holds for every vector a constructor produces (default, sized,
  copy, move, the latter also for the moved-from object), and every public operation
  preserves it, in the state it returns with and in the state an exception leaves behind:
  copy and move assignment, \<^verbatim>\<open>Reserve\<close>, \<^verbatim>\<open>Resize\<close>, \<^verbatim>\<open>PushBack\<close>, \<^verbatim>\<open>EmplaceBack\<close>,
  \<^verbatim>\<open>PopBack\<close>, \<^verbatim>\<open>Emplace\<close>, \<^verbatim>\<open>Insert\<close>, \<^verbatim>\<open>Erase\<close> and \<^verbatim>\<open>Swap\<close>. A constructor that
  throws produces no object.
\<close>

theorem size_le_capacity_invariant:
  "size_le_capacity (Vector_default :: 'a Vector) \<and>
   (\<forall>v'. Vector_sized env n = Inr v' \<longrightarrow> size_le_capacity v') \<and>
   (\<forall>v'. Vector_copy env other = Inr v' \<longrightarrow> size_le_capacity v') \<and>
   (size_le_capacity other \<longrightarrow>
      (case Vector_move other of (v', other') \<Rightarrow>
         size_le_capacity v' \<and> size_le_capacity other')) \<and>
   (size_le_capacity (v :: 'a Vector) \<longrightarrow>
      after size_le_capacity (copy_assign env rhs v) \<and>
      after size_le_capacity (Reserve env n v) \<and>
      after size_le_capacity (Resize env n v) \<and>
      after size_le_capacity (PushBack env args v) \<and>
      after size_le_capacity (EmplaceBack env args v) \<and>
      after size_le_capacity (PopBack v) \<and>
      after size_le_capacity (Emplace env pos args v) \<and>
      after size_le_capacity (Insert env pos args v) \<and>
      after size_le_capacity (Erase env pos v) \<and>
      size_le_capacity (fst (move_assign This v)) \<and>
      (size_le_capacity other \<longrightarrow>
         (case move_assign (Other other) v of (v', rhs') \<Rightarrow>
            size_le_capacity v' \<and>
            (case rhs' of This \<Rightarrow> True | Other r \<Rightarrow> size_le_capacity r)) \<and>
         (case Swap v other of (v', other') \<Rightarrow>
            size_le_capacity v' \<and> size_le_capacity other')))"
proof (intro conjI impI allI)
  show "size_le_capacity (Vector_default :: 'a Vector)"
    by (rule inv_Vector_default)
  show "size_le_capacity v'" if "Vector_sized env n = Inr v'" for v'
    using Vector_sized_sizes [OF that] by (simp add: size_le_capacity_def)
  show "size_le_capacity v'" if "Vector_copy env other = Inr v'" for v'
    using Vector_copy_sizes [OF that] by (simp add: size_le_capacity_def)
  show "case Vector_move other of (v', other') \<Rightarrow>
         size_le_capacity v' \<and> size_le_capacity other'" if "size_le_capacity other"
    using that by (simp add: Vector_move_eq inv_Vector_default)
next
  assume v: "size_le_capacity v"
  show "after size_le_capacity (copy_assign env rhs v)"
    using v by (rule inv_copy_assign)
  show "after size_le_capacity (Reserve env n v)"
    using v by (rule inv_Reserve)
  show "after size_le_capacity (Resize env n v)"
    using v by (rule inv_Resize)
  show "after size_le_capacity (PushBack env args v)"
    using v by (rule inv_PushBack)
  show "after size_le_capacity (EmplaceBack env args v)"
    using v by (rule inv_EmplaceBack)
  show "after size_le_capacity (PopBack v)"
    using v by (rule inv_PopBack)
  show "after size_le_capacity (Emplace env pos args v)"
    using v by (rule inv_Emplace)
  show "after size_le_capacity (Insert env pos args v)"
    unfolding Insert_def using v by (rule inv_Emplace)
  show "after size_le_capacity (Erase env pos v)"
    using v by (rule inv_Erase)
  show "size_le_capacity (fst (move_assign This v))"
    using v by (simp add: move_assign_eq)
  assume o: "size_le_capacity other"
  show "case move_assign (Other other) v of (v', rhs') \<Rightarrow>
            size_le_capacity v' \<and>
            (case rhs' of This \<Rightarrow> True | Other r \<Rightarrow> size_le_capacity r)"
    using v o by (simp add: move_assign_eq)
  show "case Swap v other of (v', other') \<Rightarrow>
            size_le_capacity v' \<and> size_le_capacity other'"
    using v o by (simp add: Swap_eq)
qed

theorem size_le_capacity_invariant_witness:
  "Vector_sized int_env 2 = Inr (vec [Some 0, Some 0] 2) \<and>
   size_le_capacity (vec [Some (0::int), Some 0] 2) \<and>
   Vector_copy int_env (vec [Some 3, None] 1) = Inr (vec [Some 3] 1) \<and>
   size_le_capacity (vec [Some (3::int)] 1) \<and>
   size_le_capacity (vec [Some (3::int), None] 1) \<and>
   size_le_capacity (vec [Some (1::int), Some 2] 2) \<and>
   Emplace int_env 1 (Args 9) (vec [Some 1, Some 2] 2)
     = Return 1 (vec [Some 1, Some 9, Some 2, None] 3) \<and>
   size_le_capacity (vec [Some (1::int), Some 9, Some 2, None] 3) \<and>
   size_le_capacity (vec [Some (1::int), Some (- 2)] 2) \<and>
   Emplace fragile_env 1 (Args 9) (vec [Some 1, Some (- 2)] 2)
     = Throw element_exn (vec [Some 1, Some (- 2)] 2)"
proof -
  have u: "uninitialized_value_construct_n int_env [None, None] 0 2 = (True, [Some 0, Some 0])"
    by code_simp
  have "byte_count int_env 2 div sizeof_T int_env = 2"
    by (simp add: byte_count_def int_env_def)
  moreover have "\<not> operator_new_fails int_env 2"
    by (simp add: int_env_def)
  ultimately have a0: "Vector_sized int_env 2 = Inr (vec [Some 0, Some 0] 2)"
    using u by (simp add: Vector_sized_def RawMemory_sized_eq vec_def eval_nat_numeral)
  have a: "Vector_copy int_env (vec [Some 3, None] 1) = Inr (vec [Some 3] 1)"
    "Emplace int_env 1 (Args 9) (vec [Some 1, Some 2] 2)
       = Return 1 (vec [Some 1, Some 9, Some 2, None] 3)"
    "Emplace fragile_env 1 (Args 9) (vec [Some 1, Some (- 2)] 2)
       = Throw element_exn (vec [Some 1, Some (- 2)] 2)"
    by code_simp+
  have b: "size_le_capacity (vec [Some (3::int), None] 1)"
    "size_le_capacity (vec [Some (1::int), Some 2] 2)"
    "size_le_capacity (vec [Some (1::int), Some (- 2)] 2)"
    by (simp_all add: size_le_capacity_def)
  from size_le_capacity_invariant
      [of int_env 2 "vec [Some 3, None] 1" "vec [Some 1, Some 2] 2" This "Args 9" 1]
    size_le_capacity_invariant
      [of fragile_env 2 "vec [Some 3, None] 1" "vec [Some 1, Some (- 2)] 2" This "Args 9" 1]
    a0 a b
  show ?thesis by (simp add: Insert_def)
qed

section \<open>EmplaceBack: the result\<close>

lemma elems_insertI:
  assumes s: "v_size v' = v_size v + 1"
    and l: "v_size v \<le> length (GetAddress v)" and l': "v_size v < length (GetAddress v')"
    and k: "k \<le> v_size v"
    and before: "\<And>j. j < k \<Longrightarrow> the (GetAddress v' ! j) = the (GetAddress v ! j)"
    and at: "the (GetAddress v' ! k) = x"
    and behind: "\<And>j. k \<le> j \<Longrightarrow> j < v_size v \<Longrightarrow>
                   the (GetAddress v' ! Suc j) = the (GetAddress v ! j)"
  shows "elems v' = take k (elems v) @ [x] @ drop k (elems v)"
proof (rule nth_equalityI)
  from s l l' k show "length (elems v') = length (take k (elems v) @ [x] @ drop k (elems v))"
    by (simp add: elems_def)
next
  fix i assume "i < length (elems v')"
  with s l' have i: "i < v_size v + 1"
    by (simp add: elems_def)
  consider "i < k" | "i = k" | "k < i"
    by arith
  then show "elems v' ! i = (take k (elems v) @ [x] @ drop k (elems v)) ! i"
  proof cases
    case 1
    with i s l l' k before [of i] show ?thesis
      by (simp add: elems_def nth_append)
  next
    case 2
    with i s l l' k at show ?thesis
      by (simp add: elems_def nth_append)
  next
    case 3
    then obtain j where j: "i = Suc j" "k \<le> j"
      by (cases i) auto
    with i have "j < v_size v" by simp
    with j i s l l' k behind [of j] show ?thesis
      by (simp add: elems_def nth_append Suc_diff_le)
  qed
qed

lemma EmplaceBack_result:
  assumes wf: "well_formed v" and ret: "EmplaceBack env args v = Return r v'"
  shows "\<exists>x. construct_element env (GetAddress v) args = Some x \<and> r = v_size v \<and>
             v_size v' = v_size v + 1 \<and> elems v' = elems v @ [x] \<and> well_formed v' \<and>
             Capacity v' = (if v_size v = Capacity v
                            then (if v_size v = 0 then 1 else v_size v * 2) else Capacity v)"
proof -
  note wfD = well_formedD [OF wf]
  let ?n = "v_size v"
  let ?b = "GetAddress v"
  from ret obtain x where x: "construct_element env ?b args = Some x"
    by (auto simp: EmplaceBack_def RawMemory_fitting_def split: if_splits option.splits)
  let ?c = "if ?n = Capacity v then (if ?n = 0 then 1 else ?n * 2) else Capacity v"
  have facts: "r = ?n \<and> v_size v' = ?n + 1 \<and> Capacity v' = ?c \<and>
      length (GetAddress v') = ?c \<and>
      (\<forall>k < ?n. GetAddress v' ! k = Some (the (?b ! k))) \<and> GetAddress v' ! ?n = Some x"
  proof (cases "?n = Capacity v")
    case False
    with wfD have lt: "?n < length ?b" by simp
    from False ret x have "r = ?n"
      and v': "v' = (with_buffer v (?b[?n := Some x]))\<lparr>v_size := ?n + 1\<rparr>"
      by (auto simp: EmplaceBack_def)
    moreover have "?b ! k = Some (the (?b ! k))" if "k < ?n" for k
      using wfD(4) [OF that] by auto
    ultimately show ?thesis
      using False lt wfD(1) by (simp add: v')
  next
    case True
    let ?m = "if ?n = 0 then 1 else ?n * 2"
    let ?nd = "\<lparr>rm_buffer = replicate ?m None, rm_capacity = ?m\<rparr> :: 'a RawMemory"
    let ?nb0 = "(rm_buffer ?nd)[?n := Some x]"
    from True ret have alloc: "RawMemory_fitting env ?m = Some ?nd"
      by (auto simp: EmplaceBack_def RawMemory_fitting_def split: if_splits)
    have fits: "0 + ?n \<le> length ?nb0" and lt: "?n < length ?nb0"
      by simp_all
    show ?thesis
    proof (cases "is_nothrow_move_constructible env \<or> \<not> is_copy_constructible env")
      case mv: True
      obtain ok ob nb where m: "uninitialized_move_n env ?b 0 ?n ?nb0 0 = (ok, ob, nb)"
        using prod_cases3 by blast
      with True ret alloc x mv have ok: "ok" and "r = ?n"
        and v': "v' = (swap_in v ob (?nd\<lparr>rm_buffer := nb\<rparr>))\<lparr>v_size := ?n + 1\<rparr>"
        by (cases ok; simp add: EmplaceBack_def Let_def)+
      from m ok have "uninitialized_move_n env ?b 0 ?n ?nb0 0 = (True, ob, nb)"
        by simp
      from umove_success [OF this fits] umove_length [OF m] \<open>r = ?n\<close> True lt
      show ?thesis
        by (simp add: v')
    next
      case cp: False
      obtain ok nb where m: "uninitialized_copy_n env ?b 0 ?n ?nb0 0 = (ok, nb)"
        by (cases "uninitialized_copy_n env ?b 0 ?n ?nb0 0")
      with True ret alloc x cp have ok: "ok" and "r = ?n"
        and v': "v' = (swap_in v ?b (?nd\<lparr>rm_buffer := nb\<rparr>))\<lparr>v_size := ?n + 1\<rparr>"
        by (cases ok; simp add: EmplaceBack_def Let_def)+
      from m ok have "uninitialized_copy_n env ?b 0 ?n ?nb0 0 = (True, nb)"
        by simp
      from ucopy_success [OF this fits] ucopy_length [OF m] \<open>r = ?n\<close> True lt
      show ?thesis
        by (simp add: v')
    qed
  qed
  then have r: "r = ?n" and s: "v_size v' = ?n + 1" and c: "Capacity v' = ?c"
    and len: "length (GetAddress v') = ?c"
    and old: "\<And>k. k < ?n \<Longrightarrow> GetAddress v' ! k = Some (the (?b ! k))"
    and new: "GetAddress v' ! ?n = Some x"
    by blast+
  from wfD have room: "?n < ?c"
    by (auto split: if_splits)
  have "elems v' = take ?n (elems v) @ [x] @ drop ?n (elems v)"
    using s wfD(3) room len old new by (intro elems_insertI) simp_all
  with wfD(3) have e: "elems v' = elems v @ [x]"
    by (simp add: elems_def)
  have w: "well_formed v'"
  proof (rule well_formedI)
    show "length (GetAddress v') = Capacity v'"
      by (simp only: len c)
    show "v_size v' \<le> Capacity v'"
      using room unfolding s c by simp
    show "GetAddress v' ! j \<noteq> None" if "j < v_size v'" for j
      using that old [of j] new s by (cases "j = ?n") auto
  qed
  from x r s e w c show ?thesis by blast
qed

lemma EmplaceBack_returns:
  assumes "v_size v = Capacity v \<longrightarrow>
             \<not> operator_new_fails env (if v_size v = 0 then 1 else v_size v * 2)"
    and "construct_element env (GetAddress v) args = Some x"
    and "if is_nothrow_move_constructible env \<or> \<not> is_copy_constructible env
         then \<forall>x. \<not> move_ctor_throws env x else \<forall>x. \<not> copy_ctor_throws env x"
  shows "\<exists>v'. EmplaceBack env args v = Return (v_size v) v'"
proof (cases "is_nothrow_move_constructible env \<or> \<not> is_copy_constructible env")
  case True
  with assms(3) have "\<forall>x. \<not> move_ctor_throws env x" by simp
  from umove_never_False [OF this] True assms(1,2) show ?thesis
    by (cases "v_size v = Capacity v")
      (auto simp: EmplaceBack_def RawMemory_fitting_def Let_def split: prod.split bool.split)
next
  case False
  with assms(3) have "\<forall>x. \<not> copy_ctor_throws env x" by simp
  from ucopy_never_False [OF this] False assms(1,2) show ?thesis
    by (cases "v_size v = Capacity v")
      (auto simp: EmplaceBack_def RawMemory_fitting_def Let_def split: prod.split bool.split)
qed

section \<open>Moved-from vectors\<close>

lemma well_formed_Vector_default: "well_formed Vector_default"
  by (simp add: well_formed_def Vector_default_def RawMemory_default_def GetAddress_def
      Capacity_def)

lemma Vector_default_simps [simp]:
  "v_size Vector_default = 0" "Capacity Vector_default = 0" "GetAddress Vector_default = []"
  "elems Vector_default = []"
  by (simp_all add: Vector_default_def RawMemory_default_def GetAddress_def Capacity_def
      elems_def)

lemma PushBack_Return_iff:
  "PushBack env a v = Return () v' \<longleftrightarrow> (\<exists>r. EmplaceBack env a v = Return r v')"
  by (simp add: PushBack_def split: outcome.splits)

text \<open>
  C2, as the code has it. Move construction leaves the moved-from vector default-empty:
  size 0, capacity 0. Move assignment swaps the two objects, so the moved-from vector is
  the target as it was before the assignment, with the target's former size; assigning a
  vector to itself changes nothing. Either way the moved-from vector is well-formed
  whenever the vectors were, and \<^verbatim>\<open>PushBack\<close> can be used on it: on the default-empty one
  it returns with the new element as the only one if the allocation of one slot succeeds
  and the element's constructor does not throw; on any well-formed vector it returns if
  the allocation (when growth is due), the constructor and the relocation do not throw,
  and what it returns has the new element appended.
\<close>

theorem moved_from_spec:
  "Vector_move other = (other, Vector_default) \<and>
   v_size (Vector_default :: 'a Vector) = 0 \<and> Capacity (Vector_default :: 'a Vector) = 0 \<and>
   well_formed (Vector_default :: 'a Vector) \<and>
   move_assign (Other r) v = (r, Other v) \<and>
   move_assign This v = (v, This) \<and>
   (\<not> operator_new_fails env 1 \<and> construct_element env [] a = Some x \<longrightarrow>
      (\<exists>v'. PushBack env a Vector_default = Return () v' \<and>
            v_size v' = 1 \<and> elems v' = [x] \<and> well_formed v')) \<and>
   ((v_size v = Capacity v \<longrightarrow>
       \<not> operator_new_fails env (if v_size v = 0 then 1 else v_size v * 2)) \<and>
    construct_element env (GetAddress v) a = Some x \<and>
    (if is_nothrow_move_constructible env \<or> \<not> is_copy_constructible env
     then \<forall>y. \<not> move_ctor_throws env y else \<forall>y. \<not> copy_ctor_throws env y) \<longrightarrow>
      (\<exists>v'. PushBack env a v = Return () v')) \<and>
   (well_formed v \<and> PushBack env a v = Return () v'' \<longrightarrow>
      (\<exists>y. construct_element env (GetAddress v) a = Some y \<and> elems v'' = elems v @ [y]) \<and>
      v_size v'' = v_size v + 1 \<and> well_formed v'')"
proof (intro conjI impI)
  show "Vector_move other = (other, Vector_default)"
    by (rule Vector_move_eq)
  show "move_assign (Other r) v = (r, Other v)" "move_assign This v = (v, This)"
    by (simp_all add: move_assign_eq)
  show "v_size (Vector_default :: 'a Vector) = 0" "Capacity (Vector_default :: 'a Vector) = 0"
    by simp_all
  show "well_formed (Vector_default :: 'a Vector)"
    by (rule well_formed_Vector_default)
next
  assume a: "\<not> operator_new_fails env 1 \<and> construct_element env [] a = Some x"
  then have "\<exists>v'. EmplaceBack env a Vector_default = Return 0 v'"
    by (simp add: EmplaceBack_def RawMemory_fitting_def Let_def)
  then obtain v' where e: "EmplaceBack env a Vector_default = Return 0 v'"
    by auto
  from EmplaceBack_result [OF well_formed_Vector_default e] a e
  show "\<exists>v'. PushBack env a Vector_default = Return () v' \<and>
            v_size v' = 1 \<and> elems v' = [x] \<and> well_formed v'"
    by (auto simp: PushBack_Return_iff)
next
  assume "(v_size v = Capacity v \<longrightarrow>
       \<not> operator_new_fails env (if v_size v = 0 then 1 else v_size v * 2)) \<and>
    construct_element env (GetAddress v) a = Some x \<and>
    (if is_nothrow_move_constructible env \<or> \<not> is_copy_constructible env
     then \<forall>y. \<not> move_ctor_throws env y else \<forall>y. \<not> copy_ctor_throws env y)"
  then show "\<exists>v'. PushBack env a v = Return () v'"
    using EmplaceBack_returns [of v env a x] by (auto simp: PushBack_Return_iff)
next
  assume "well_formed v \<and> PushBack env a v = Return () v''"
  then obtain r where "well_formed v" "EmplaceBack env a v = Return r v''"
    by (auto simp: PushBack_Return_iff)
  from EmplaceBack_result [OF this]
  show "(\<exists>y. construct_element env (GetAddress v) a = Some y \<and> elems v'' = elems v @ [y])"
    "v_size v'' = v_size v + 1" "well_formed v''"
    by auto
qed

theorem moved_from_spec_witness:
  "\<not> operator_new_fails int_env 1 \<and> construct_element int_env [] (Lvalue 7) = Some 7 \<and>
   PushBack int_env (Lvalue 7) Vector_default = Return () (vec [Some 7] 1) \<and>
   elems (vec [Some (7::int)] 1) = [7] \<and>
   v_size (vec [Some (1::int)] 1) = Capacity (vec [Some (1::int)] 1) \<and>
   \<not> operator_new_fails int_env 2 \<and>
   construct_element int_env (GetAddress (vec [Some 1] 1)) (Lvalue 7) = Some 7 \<and>
   is_nothrow_move_constructible int_env \<and> (\<forall>y. \<not> move_ctor_throws int_env y) \<and>
   well_formed (vec [Some (1::int)] 1) \<and>
   PushBack int_env (Lvalue 7) (vec [Some 1] 1) = Return () (vec [Some 1, Some 7] 2) \<and>
   elems (vec [Some (1::int), Some 7] 2) = elems (vec [Some 1] 1) @ [7]"
proof -
  have a: "PushBack int_env (Lvalue 7) Vector_default = Return () (vec [Some 7] 1)"
    "PushBack int_env (Lvalue 7) (vec [Some 1] 1) = Return () (vec [Some 1, Some 7] 2)"
    by code_simp+
  have b: "\<not> operator_new_fails int_env 1" "\<not> operator_new_fails int_env 2"
    "construct_element int_env [] (Lvalue 7) = Some 7"
    "construct_element int_env (GetAddress (vec [Some 1] 1)) (Lvalue 7) = Some 7"
    "is_nothrow_move_constructible int_env" "\<forall>y. \<not> move_ctor_throws int_env y"
    by (simp_all add: int_env_def construct_element_def)
  have c: "well_formed (vec [Some (1::int)] 1)"
    by (simp add: well_formed_def)
  from moved_from_spec [of "vec [Some 2] 1" "vec [Some 2] 1" "vec [Some 1] 1" int_env
      "Lvalue 7" 7 "vec [Some 1, Some 7] 2"] a b c
  show ?thesis by (simp add: elems_def)
qed

text \<open>
  After \<^verbatim>\<open>a = std::move(b)\<close> with \<open>a = [1]\<close> and \<open>b = [2]\<close>, the moved-from \<open>b\<close> is \<open>[1]\<close>:
  its size is 1, not 0.
\<close>

theorem moved_from_size_counterexample:
  "move_assign (Other (vec [Some 2] 1)) (vec [Some (1::int)] 1)
     = (vec [Some 2] 1, Other (vec [Some 1] 1)) \<and>
   v_size (vec [Some (1::int)] 1) \<noteq> 0"
  by (simp add: move_assign_eq)

section \<open>Growth under PushBack\<close>

lemma EmplaceBack_sizes:
  "after (\<lambda>v'. (\<forall>r. EmplaceBack env a v = Return r v' \<longrightarrow>
            v_size v' = v_size v + 1 \<and>
            Capacity v' = (if v_size v = Capacity v
                           then (if v_size v = 0 then 1 else v_size v * 2) else Capacity v)))
     (EmplaceBack env a v)"
  by (cases "is_nothrow_move_constructible env \<or> \<not> is_copy_constructible env";
      cases "v_size v = Capacity v")
    (auto simp: EmplaceBack_def RawMemory_fitting_def Let_def
      split: prod.split bool.split option.split)

lemma PushBack_sizes:
  assumes "PushBack env a v = Return () v'"
  shows "v_size v' = v_size v + 1"
    and "Capacity v' = (if v_size v = Capacity v
                        then (if v_size v = 0 then 1 else v_size v * 2) else Capacity v)"
proof -
  from assms obtain r where r: "EmplaceBack env a v = Return r v'"
    by (auto simp: PushBack_Return_iff)
  from after_ReturnD [OF EmplaceBack_sizes r] r
  show "v_size v' = v_size v + 1"
    and "Capacity v' = (if v_size v = Capacity v
                        then (if v_size v = 0 then 1 else v_size v * 2) else Capacity v)"
    by blast+
qed

lemma ceillog2_step_full:
  assumes "0 < k" and "k = 2 ^ ceillog2 k"
  shows "2 ^ ceillog2 (Suc k) = k * 2"
proof -
  have "ceillog2 (Suc k) = Suc (ceillog2 k)"
    using assms by (intro ceillog2_eqI) (auto simp: Suc_le_eq)
  with assms(2) show ?thesis by simp
qed

lemma ceillog2_step_room:
  assumes "0 < k" and "k \<noteq> 2 ^ ceillog2 k"
  shows "ceillog2 (Suc k) = ceillog2 k"
proof (rule ceillog2_eqI)
  from le_two_power_ceillog2 [of k] assms(2) show "Suc k \<le> 2 ^ ceillog2 k"
    by simp
  from two_power_ceillog2_gt [OF assms(1)] show "2 ^ ceillog2 k < 2 * Suc k"
    by simp
qed

lemma PushBack_all_sizes:
  assumes "PushBack_all env as v = Return () v'"
    and "Capacity v = (if v_size v = 0 then 0 else 2 ^ ceillog2 (v_size v))"
  shows "v_size v' = v_size v + length as \<and>
         Capacity v' = (if v_size v' = 0 then 0 else 2 ^ ceillog2 (v_size v'))"
  using assms
proof (induction as arbitrary: v)
  case Nil
  then show ?case by simp
next
  case (Cons a as)
  from Cons.prems(1) obtain v1 where p: "PushBack env a v = Return () v1"
    and rest: "PushBack_all env as v1 = Return () v'"
    by (auto split: outcome.splits)
  note s = PushBack_sizes [OF p]
  have "Capacity v1 = (if v_size v1 = 0 then 0 else 2 ^ ceillog2 (v_size v1))"
  proof (cases "v_size v = 0")
    case True
    with s Cons.prems(2) show ?thesis by simp
  next
    case False
    show ?thesis
    proof (cases "v_size v = 2 ^ ceillog2 (v_size v)")
      case True
      with ceillog2_step_full [of "v_size v"] False s Cons.prems(2) show ?thesis
        by simp
    next
      case neq: False
      with ceillog2_step_room [of "v_size v"] False s Cons.prems(2) show ?thesis
        by simp
    qed
  qed
  from Cons.IH [OF rest this] s(1) show ?case by simp
qed

lemma PushBack_all_returns:
  assumes "\<forall>n. \<not> operator_new_fails env n"
    and "\<forall>a \<in> set as. \<forall>b. construct_element env b a \<noteq> None"
    and "if is_nothrow_move_constructible env \<or> \<not> is_copy_constructible env
         then \<forall>x. \<not> move_ctor_throws env x else \<forall>x. \<not> copy_ctor_throws env x"
  shows "\<exists>v'. PushBack_all env as v = Return () v'"
  using assms(2)
proof (induction as arbitrary: v)
  case Nil
  then show ?case by simp
next
  case (Cons a as)
  from Cons.prems have "construct_element env (GetAddress v) a \<noteq> None"
    by simp
  then obtain x where "construct_element env (GetAddress v) a = Some x"
    by auto
  from EmplaceBack_returns [OF _ this assms(3)] assms(1)
  obtain v1 where "PushBack env a v = Return () v1"
    by (auto simp: PushBack_Return_iff)
  with Cons.IH [of v1] Cons.prems show ?case
    by simp
qed

text \<open>
  C3. Starting from a default-constructed vector, \<open>n > 0\<close> calls of \<^verbatim>\<open>PushBack\<close> that all
  return leave a vector of size \<open>n\<close> and capacity \<open>2 ^ \<lceil>log\<^sub>2 n\<rceil>\<close>. One \<^verbatim>\<open>PushBack\<close> on a
  full vector makes the capacity \<open>max 1 (2 * size)\<close>, one on a vector with room leaves
  the capacity as it is. The calls do all return when no allocation fails, the
  constructors of the new elements do not throw and relocation does not throw.
\<close>

theorem PushBack_growth:
  "(as \<noteq> [] \<and> PushBack_all env as Vector_default = Return () v' \<longrightarrow>
      v_size v' = length as \<and> Capacity v' = 2 ^ ceillog2 (length as)) \<and>
   (v_size v = Capacity v \<and> PushBack env a v = Return () v'' \<longrightarrow>
      Capacity v'' = max 1 (2 * v_size v)) \<and>
   (v_size v \<noteq> Capacity v \<and> PushBack env a v = Return () v'' \<longrightarrow>
      Capacity v'' = Capacity v) \<and>
   ((\<forall>n. \<not> operator_new_fails env n) \<and> (\<forall>a \<in> set as. \<forall>b. construct_element env b a \<noteq> None) \<and>
    (if is_nothrow_move_constructible env \<or> \<not> is_copy_constructible env
     then \<forall>x. \<not> move_ctor_throws env x else \<forall>x. \<not> copy_ctor_throws env x) \<longrightarrow>
      (\<exists>w. PushBack_all env as Vector_default = Return () w))"
proof (intro conjI impI)
  assume "as \<noteq> [] \<and> PushBack_all env as Vector_default = Return () v'"
  then have ne: "as \<noteq> []" and r: "PushBack_all env as Vector_default = Return () v'"
    by simp_all
  from PushBack_all_sizes [OF r] ne
  show "v_size v' = length as" "Capacity v' = 2 ^ ceillog2 (length as)"
    by simp_all
next
  assume "v_size v = Capacity v \<and> PushBack env a v = Return () v''"
  then show "Capacity v'' = max 1 (2 * v_size v)"
    using PushBack_sizes(2) [of env a v v''] by auto
next
  assume "v_size v \<noteq> Capacity v \<and> PushBack env a v = Return () v''"
  then show "Capacity v'' = Capacity v"
    using PushBack_sizes(2) [of env a v v''] by auto
next
  assume "(\<forall>n. \<not> operator_new_fails env n) \<and> (\<forall>a \<in> set as. \<forall>b. construct_element env b a \<noteq> None) \<and>
    (if is_nothrow_move_constructible env \<or> \<not> is_copy_constructible env
     then \<forall>x. \<not> move_ctor_throws env x else \<forall>x. \<not> copy_ctor_throws env x)"
  then show "\<exists>w. PushBack_all env as Vector_default = Return () w"
    using PushBack_all_returns [of env as Vector_default] by blast
qed

theorem PushBack_growth_witness:
  "[Lvalue 1, Lvalue 2, Lvalue 3, Lvalue 4, Lvalue 5] \<noteq> ([] :: (int, int) arg list) \<and>
   PushBack_all int_env [Lvalue 1, Lvalue 2, Lvalue 3, Lvalue 4, Lvalue 5] Vector_default
     = Return () (vec [Some 1, Some 2, Some 3, Some 4, Some 5, None, None, None] 5) \<and>
   (2::nat) ^ ceillog2 (length [Lvalue 1, Lvalue 2, Lvalue 3, Lvalue 4, Lvalue (5::int)]) = 8 \<and>
   v_size (vec [Some 1, Some (2::int)] 2) = Capacity (vec [Some 1, Some (2::int)] 2) \<and>
   PushBack int_env (Lvalue 3) (vec [Some 1, Some 2] 2)
     = Return () (vec [Some 1, Some 2, Some 3, None] 3) \<and>
   v_size (vec [Some 1, Some 2, Some (3::int), None] 3)
     \<noteq> Capacity (vec [Some 1, Some 2, Some (3::int), None] 3) \<and>
   PushBack int_env (Lvalue 4) (vec [Some 1, Some 2, Some 3, None] 3)
     = Return () (vec [Some 1, Some 2, Some 3, Some 4] 4) \<and>
   (\<forall>n. \<not> operator_new_fails int_env n) \<and>
   (\<forall>b. construct_element int_env b (Lvalue 1) \<noteq> None) \<and>
   is_nothrow_move_constructible int_env \<and> (\<forall>x. \<not> move_ctor_throws int_env x)"
proof -
  have a: "PushBack_all int_env [Lvalue 1, Lvalue 2, Lvalue 3, Lvalue 4, Lvalue 5] Vector_default
     = Return () (vec [Some 1, Some 2, Some 3, Some 4, Some 5, None, None, None] 5)"
    "PushBack int_env (Lvalue 3) (vec [Some 1, Some 2] 2)
     = Return () (vec [Some 1, Some 2, Some 3, None] 3)"
    "PushBack int_env (Lvalue 4) (vec [Some 1, Some 2, Some 3, None] 3)
     = Return () (vec [Some 1, Some 2, Some 3, Some 4] 4)"
    by code_simp+
  have b: "\<forall>n. \<not> operator_new_fails int_env n" "is_nothrow_move_constructible int_env"
    "\<forall>x. \<not> move_ctor_throws int_env x" "\<forall>b x. construct_element int_env b (Lvalue x) \<noteq> None"
    by (simp_all add: int_env_def construct_element_def)
  have c: "ceillog2 5 = 3"
    by (rule ceillog2_eqI) simp_all
  from PushBack_growth [of "[Lvalue 1, Lvalue 2, Lvalue 3, Lvalue 4, Lvalue 5]" int_env
      "vec [Some 1, Some 2, Some 3, Some 4, Some 5, None, None, None] 5"
      "vec [Some 1, Some 2] 2" "Lvalue 3" "vec [Some 1, Some 2, Some 3, None] 3"]
    PushBack_growth [of "[Lvalue 1, Lvalue 2, Lvalue 3, Lvalue 4, Lvalue 5]" int_env
      "vec [Some 1, Some 2, Some 3, Some 4, Some 5, None, None, None] 5"
      "vec [Some 1, Some 2, Some 3, None] 3" "Lvalue 4" "vec [Some 1, Some 2, Some 3, Some 4] 4"]
    a b c
  show ?thesis by simp
qed

section \<open>Emplace: the result\<close>

lemma umove_src_outside:
  "uninitialized_move_n env src f n dst r = (ok, s, d) \<Longrightarrow> j < f \<or> f + n \<le> j \<Longrightarrow>
   s ! j = src ! j"
proof (induction n arbitrary: src dst f r ok s d)
  case 0
  then show ?case by simp
next
  case (Suc n)
  let ?x = "the (src ! f)"
  obtain ok1 s1 d1 where
    rec: "uninitialized_move_n env (src[f := Some (moved_from env ?x)]) (Suc f) n
            (dst[r := Some ?x]) (Suc r) = (ok1, s1, d1)"
    using prod_cases3 by blast
  from Suc.prems(2) have "j < Suc f \<or> Suc f + n \<le> j" by auto
  from Suc.IH [OF rec this] Suc.prems rec show ?case
    by (cases ok1) (auto simp: Let_def split: if_splits)
qed

lemma live_Some: "b ! j \<noteq> None \<Longrightarrow> b ! j = Some (the (b ! j))"
  by auto

lemma Emplace_result:
  assumes wf: "well_formed v" and ret: "Emplace env pos args v = Return r v'"
  shows "\<exists>x. construct_element env (GetAddress v) args = Some x \<and>
             0 \<le> pos \<and> pos \<le> int (v_size v) \<and> r = nat pos \<and>
             v_size v' = v_size v + 1 \<and>
             elems v' = take (nat pos) (elems v) @ [x] @ drop (nat pos) (elems v) \<and>
             well_formed v'"
proof -
  note wfD = well_formedD [OF wf]
  let ?n = "v_size v"
  let ?b = "GetAddress v"
  let ?k = "nat pos"
  from ret have range: "0 \<le> pos" "pos \<le> int ?n"
    by (auto simp: Emplace_def split: if_splits)
  then have k: "?k \<le> ?n" by simp
  have live: "?b ! j = Some (the (?b ! j))" if "j < ?n" for j
    using wfD(4) [OF that] by (rule live_Some)
  from ret range obtain x where x: "construct_element env ?b args = Some x"
    by (cases "?n = Capacity v"; cases "pos = int ?n")
      (auto simp: Emplace_def RawMemory_fitting_def Let_def split: if_splits option.splits)
  let ?b' = "GetAddress v'"
  have facts: "r = ?k \<and> v_size v' = ?n + 1 \<and> length ?b' = Capacity v' \<and> ?n < Capacity v' \<and>
      (\<forall>j < ?k. ?b' ! j = Some (the (?b ! j))) \<and> ?b' ! ?k = Some x \<and>
      (\<forall>j. ?k \<le> j \<and> j < ?n \<longrightarrow> ?b' ! Suc j = Some (the (?b ! j)))"
  proof (cases "?n = Capacity v")
    case full: True
    let ?m = "if ?n = 0 then 1 else ?n * 2"
    let ?nd = "\<lparr>rm_buffer = replicate ?m None, rm_capacity = ?m\<rparr> :: 'a RawMemory"
    let ?nb0 = "(rm_buffer ?nd)[?k := Some x]"
    from full ret range have alloc: "RawMemory_fitting env ?m = Some ?nd"
      by (auto simp: Emplace_def RawMemory_fitting_def split: if_splits)
    have room: "?n < ?m" by simp
    have fits1: "0 + ?k \<le> length ?nb0" using k by simp
    have nb0k: "?nb0 ! ?k = Some x" using k by simp
    show ?thesis
    proof (cases "is_nothrow_move_constructible env \<or> \<not> is_copy_constructible env")
      case mv: True
      obtain ok1 ob1 nb1 where m1: "uninitialized_move_n env ?b 0 ?k ?nb0 0 = (ok1, ob1, nb1)"
        using prod_cases3 by blast
      obtain ok2 ob2 nb2 where
        m2: "uninitialized_move_n env ob1 ?k (?n - ?k) nb1 (?k + 1) = (ok2, ob2, nb2)"
        using prod_cases3 by blast
      from full ret range alloc x mv m1 have ok1: "ok1"
        by (cases ok1; simp add: Emplace_def Let_def)
      from full ret range alloc x mv m1 m2 ok1 have ok2: "ok2" and "r = ?k"
        and v': "v' = (swap_in v ob2 (?nd\<lparr>rm_buffer := nb2\<rparr>))\<lparr>v_size := ?n + 1\<rparr>"
        by (cases ok2; simp add: Emplace_def Let_def)+
      from m1 ok1 have m1': "uninitialized_move_n env ?b 0 ?k ?nb0 0 = (True, ob1, nb1)"
        by simp
      from m2 ok2 have
        m2': "uninitialized_move_n env ob1 ?k (?n - ?k) nb1 (?k + 1) = (True, ob2, nb2)"
        by simp
      note l1 = umove_length [OF m1] and l2 = umove_length [OF m2]
      from l1 k have fits2: "?k + 1 + (?n - ?k) \<le> length nb1"
        by simp
      note s1 = umove_success [OF m1' fits1] and s2 = umove_success [OF m2' fits2]
      have a: "nb2 ! j = Some (the (?b ! j))" if "j < ?k" for j
        using that s1 s2 by simp
      have b: "nb2 ! ?k = Some x"
        using s1 s2 nb0k by simp
      have c: "nb2 ! Suc j = Some (the (?b ! j))" if "?k \<le> j" "j < ?n" for j
      proof -
        define i where "i = j - ?k"
        with that have i: "j = ?k + i" "i < ?n - ?k"
          by simp_all
        with s2 have "nb2 ! (?k + 1 + i) = Some (the (ob1 ! (?k + i)))"
          by blast
        moreover from umove_src_outside [OF m1, of "?k + i"] have "ob1 ! (?k + i) = ?b ! (?k + i)"
          by simp
        ultimately show ?thesis
          using i by simp
      qed
      from a b c l2 l1 \<open>r = ?k\<close> room show ?thesis
        by (simp add: v')
    next
      case cp: False
      obtain ok1 nb1 where m1: "uninitialized_copy_n env ?b 0 ?k ?nb0 0 = (ok1, nb1)"
        by (cases "uninitialized_copy_n env ?b 0 ?k ?nb0 0")
      obtain ok2 nb2 where
        m2: "uninitialized_copy_n env ?b ?k (?n - ?k) nb1 (?k + 1) = (ok2, nb2)"
        by (cases "uninitialized_copy_n env ?b ?k (?n - ?k) nb1 (?k + 1)")
      from full ret range alloc x cp m1 have ok1: "ok1"
        by (cases ok1; simp add: Emplace_def Let_def)
      from full ret range alloc x cp m1 m2 ok1 have ok2: "ok2" and "r = ?k"
        and v': "v' = (swap_in v ?b (?nd\<lparr>rm_buffer := nb2\<rparr>))\<lparr>v_size := ?n + 1\<rparr>"
        by (cases ok2; simp add: Emplace_def Let_def)+
      from m1 ok1 have m1': "uninitialized_copy_n env ?b 0 ?k ?nb0 0 = (True, nb1)"
        by simp
      from m2 ok2 have
        m2': "uninitialized_copy_n env ?b ?k (?n - ?k) nb1 (?k + 1) = (True, nb2)"
        by simp
      note l1 = ucopy_length [OF m1] and l2 = ucopy_length [OF m2]
      from l1 k have fits2: "?k + 1 + (?n - ?k) \<le> length nb1"
        by simp
      note s1 = ucopy_success [OF m1' fits1] and s2 = ucopy_success [OF m2' fits2]
      have a: "nb2 ! j = Some (the (?b ! j))" if "j < ?k" for j
        using that s1 s2 by simp
      have b: "nb2 ! ?k = Some x"
        using s1 s2 nb0k by simp
      have c: "nb2 ! Suc j = Some (the (?b ! j))" if "?k \<le> j" "j < ?n" for j
      proof -
        define i where "i = j - ?k"
        with that have i: "j = ?k + i" "i < ?n - ?k"
          by simp_all
        with s2 have "nb2 ! (?k + 1 + i) = Some (the (?b ! (?k + i)))"
          by blast
        with i show ?thesis by simp
      qed
      from a b c l2 l1 \<open>r = ?k\<close> room show ?thesis
        by (simp add: v')
    qed
  next
    case room: False
    with wfD have lt: "?n < length ?b" "?n < Capacity v" by simp_all
    show ?thesis
    proof (cases "pos = int ?n")
      case True
      with room ret range x have "r = ?k"
        and v': "v' = (with_buffer v (?b[?k := Some x]))\<lparr>v_size := ?n + 1\<rparr>"
        by (auto simp: Emplace_def Let_def)
      with True lt wfD(1) live show ?thesis
        by (auto simp: v')
    next
      case False
      with range have kn: "?k < ?n" by linarith
      let ?tail_elem = "the (?b ! (?n - 1))"
      let ?b1 = "?b[?n := Some ?tail_elem, ?n - 1 := Some (moved_from env ?tail_elem)]"
      obtain ok b2 where
        mb: "std_move_backward env ?b1 (?n - 1) (?n - 1 - ?k) ?n = (ok, b2)"
        by (cases "std_move_backward env ?b1 (?n - 1) (?n - 1 - ?k) ?n")
      from room False ret range x mb have ok: "ok" and "r = ?k"
        and v': "v' = (with_buffer v (b2[?k := Some x]))\<lparr>v_size := ?n + 1\<rparr>"
        by (cases ok; auto simp: Emplace_def Let_def split: if_splits)+
      let ?m = "?n - 1 - ?k"
      from kn have idx: "?n - 1 = ?k + ?m" "?n = Suc (?k + ?m)"
        by simp_all
      from mb ok have "std_move_backward env ?b1 (?n - 1) ?m ?n = (True, b2)"
        by simp
      then have mb': "std_move_backward env ?b1 (?k + ?m) ?m (Suc (?k + ?m)) = (True, b2)"
        using idx by simp
      from lt kn have "?k + ?m < length ?b1" by simp
      note s = std_move_backward_success [OF mb' this]
      note l = std_move_backward_length [OF mb]
      have a: "b2[?k := Some x] ! j = Some (the (?b ! j))" if "j < ?k" for j
      proof -
        from that s have "b2 ! j = ?b1 ! j" by simp
        with that kn live [of j] show ?thesis by simp
      qed
      have b: "b2[?k := Some x] ! ?k = Some x"
        using l lt kn by simp
      have c: "b2[?k := Some x] ! Suc j = Some (the (?b ! j))" if "?k \<le> j" "j < ?n" for j
      proof (cases "j = ?n - 1")
        case True
        with kn s have "b2 ! ?n = ?b1 ! ?n" by simp
        with True that lt kn show ?thesis by simp
      next
        case False
        define i where "i = j - ?k"
        with that False have i: "j = ?k + i" "i < ?m"
          by simp_all
        with s have "b2 ! (Suc ?k + i) = Some (the (?b1 ! (?k + i)))" by blast
        with i that False lt show ?thesis by simp
      qed
      from a b c l lt wfD(1) \<open>r = ?k\<close> show ?thesis
        by (simp add: v')
    qed
  qed
  then have r: "r = ?k" and s: "v_size v' = ?n + 1"
    and len: "length ?b' = Capacity v'" and room: "?n < Capacity v'"
    and before: "\<And>j. j < ?k \<Longrightarrow> ?b' ! j = Some (the (?b ! j))"
    and at: "?b' ! ?k = Some x"
    and behind: "\<And>j. ?k \<le> j \<Longrightarrow> j < ?n \<Longrightarrow> ?b' ! Suc j = Some (the (?b ! j))"
    by blast+
  have e: "elems v' = take ?k (elems v) @ [x] @ drop ?k (elems v)"
    using s wfD(3) room len k before at behind by (intro elems_insertI) simp_all
  have w: "well_formed v'"
  proof (rule well_formedI)
    show "length ?b' = Capacity v'" by (rule len)
    show "v_size v' \<le> Capacity v'" using room s by simp
    show "?b' ! j \<noteq> None" if "j < v_size v'" for j
    proof -
      consider "j < ?k" | "j = ?k" | "?k < j"
        by arith
      then show ?thesis
      proof cases
        case 1
        with before show ?thesis by simp
      next
        case 2
        with at show ?thesis by simp
      next
        case 3
        define i where "i = j - 1"
        with 3 that s have "j = Suc i" "?k \<le> i" "i < ?n"
          by simp_all
        with behind [of i] show ?thesis by simp
      qed
    qed
  qed
  from x range r s e w show ?thesis by blast
qed

section \<open>Erase: the result\<close>

lemma with_buffer_twice [simp]: "with_buffer (with_buffer v b) b' = with_buffer v b'"
  by (simp add: with_buffer_def)

lemma elems_eraseI:
  assumes s: "v_size v' = v_size v - 1"
    and l: "v_size v \<le> length (GetAddress v)" and l': "v_size v' \<le> length (GetAddress v')"
    and k: "k < v_size v"
    and before: "\<And>j. j < k \<Longrightarrow> the (GetAddress v' ! j) = the (GetAddress v ! j)"
    and behind: "\<And>j. k \<le> j \<Longrightarrow> Suc j < v_size v \<Longrightarrow>
                   the (GetAddress v' ! j) = the (GetAddress v ! Suc j)"
  shows "elems v' = take k (elems v) @ drop (Suc k) (elems v)"
proof (rule nth_equalityI)
  from s l l' k show "length (elems v') = length (take k (elems v) @ drop (Suc k) (elems v))"
    by (simp add: elems_def)
next
  fix i assume "i < length (elems v')"
  with s l' have i: "Suc i < v_size v"
    by (simp add: elems_def)
  show "elems v' ! i = (take k (elems v) @ drop (Suc k) (elems v)) ! i"
  proof (cases "i < k")
    case True
    with i s l l' k before [of i] show ?thesis
      by (simp add: elems_def nth_append)
  next
    case False
    with i s l l' k behind [of i] show ?thesis
      by (simp add: elems_def nth_append)
  qed
qed

lemma Erase_result:
  assumes wf: "well_formed v" and ret: "Erase env pos v = Return r v'"
  shows "0 \<le> pos \<and> pos < int (v_size v) \<and> r = nat pos \<and> v_size v' = v_size v - 1 \<and>
         elems v' = take (nat pos) (elems v) @ drop (Suc (nat pos)) (elems v) \<and>
         well_formed v'"
proof -
  note wfD = well_formedD [OF wf]
  let ?n = "v_size v"
  let ?b = "GetAddress v"
  let ?k = "nat pos"
  from ret have range: "0 \<le> pos" "pos < int ?n"
    by (auto simp: Erase_def split: if_splits)
  then have k: "?k < ?n" by simp
  let ?m = "?n - (?k + 1)"
  obtain ok b2 where m: "std_move env ?b (?k + 1) ?m ?k = (ok, b2)"
    by (cases "std_move env ?b (?k + 1) ?m ?k")
  have ok: "ok"
  proof (rule ccontr)
    assume "\<not> ok"
    with ret range m show False by (simp add: Erase_def)
  qed
  from ret range m ok k
  have "Return ?k ((with_buffer v (b2[?n - 1 := None]))\<lparr>v_size := ?n - 1\<rparr>) = Return r v'"
    by (simp add: Erase_def PopBack_cases)
  then have r: "r = ?k"
    and v': "v' = (with_buffer v (b2[?n - 1 := None]))\<lparr>v_size := ?n - 1\<rparr>"
    by simp_all
  from m ok have m': "std_move env ?b (Suc ?k) ?m ?k = (True, b2)"
    by simp
  from k wfD(3) have "Suc ?k + ?m \<le> length ?b"
    by simp
  note s = std_move_success [OF m' this]
  note len = std_move_length [OF m]
  have before: "b2 ! j = ?b ! j" if "j < ?k" for j
    using that s by simp
  have behind: "b2 ! j = Some (the (?b ! Suc j))" if "?k \<le> j" "Suc j < ?n" for j
  proof -
    define i where "i = j - ?k"
    with that have "j = ?k + i" "i < ?m"
      by simp_all
    with s show ?thesis by simp
  qed
  have sz: "v_size v' = ?n - 1" and b': "GetAddress v' = b2[?n - 1 := None]"
    and c: "Capacity v' = Capacity v"
    by (simp_all add: v')
  have e: "elems v' = take ?k (elems v) @ drop (Suc ?k) (elems v)"
    using sz wfD(3) len k before behind by (intro elems_eraseI) (simp_all add: b')
  have w: "well_formed v'"
  proof (rule well_formedI)
    show "length (GetAddress v') = Capacity v'"
      using len wfD(1) by (simp add: b' c)
    show "v_size v' \<le> Capacity v'"
      using wfD(2) by (simp add: sz c)
    show "GetAddress v' ! j \<noteq> None" if "j < v_size v'" for j
    proof (cases "j < ?k")
      case True
      with that before [of j] wfD(4) [of j] k show ?thesis
        by (simp add: b' sz)
    next
      case False
      with that behind [of j] show ?thesis
        by (simp add: b' sz)
    qed
  qed
  from range r sz e w show ?thesis by simp
qed

lemma std_move_never_False:
  "\<forall>y x. \<not> move_assign_throws env y x \<Longrightarrow> std_move env b f n r \<noteq> (False, b')"
  by (induction n arbitrary: b f r) (simp_all add: Let_def)

lemma std_move_backward_never_False:
  "\<forall>y x. \<not> move_assign_throws env y x \<Longrightarrow> std_move_backward env b l n dl \<noteq> (False, b')"
  by (induction n arbitrary: b l dl) (simp_all add: Let_def)

lemma Erase_returns:
  assumes "0 \<le> pos" "pos < int (v_size v)" and "\<forall>y x. \<not> move_assign_throws env y x"
  shows "\<exists>v'. Erase env pos v = Return (nat pos) v'"
proof -
  obtain ok b where m: "std_move env (GetAddress v) (nat pos + 1) (v_size v - (nat pos + 1)) (nat pos) = (ok, b)"
    by (cases "std_move env (GetAddress v) (nat pos + 1) (v_size v - (nat pos + 1)) (nat pos)")
  with std_move_never_False [OF assms(3)] have "ok"
    by (cases ok) auto
  with m assms(1,2) show ?thesis
    by (simp add: Erase_def PopBack_cases)
qed

lemma Emplace_returns:
  assumes "0 \<le> pos" "pos \<le> int (v_size v)"
    and "v_size v = Capacity v \<longrightarrow>
           \<not> operator_new_fails env (if v_size v = 0 then 1 else v_size v * 2)"
    and "construct_element env (GetAddress v) args = Some x"
    and "\<forall>x. \<not> move_ctor_throws env x" and "\<forall>x. \<not> copy_ctor_throws env x"
    and "\<forall>y x. \<not> move_assign_throws env y x"
  shows "\<exists>v'. Emplace env pos args v = Return (nat pos) v'"
proof -
  note [simp] = umove_never_False [OF assms(5)] ucopy_never_False [OF assms(6)]
    std_move_backward_never_False [OF assms(7)]
  show ?thesis
  proof (cases "v_size v = Capacity v")
    case True
    with assms(1-4) show ?thesis
      by (cases "is_nothrow_move_constructible env \<or> \<not> is_copy_constructible env")
        (simp_all add: Emplace_def RawMemory_fitting_def Let_def split: prod.split bool.split)
  next
    case False
    with assms(1-5,7) show ?thesis
      by (cases "pos = int (v_size v)")
        (simp_all add: Emplace_def Let_def split: prod.split bool.split)
  qed
qed

section \<open>Insert followed by Erase\<close>

lemma length_elems: "v_size v \<le> length (GetAddress v) \<Longrightarrow> length (elems v) = v_size v"
  by (simp add: elems_def)

lemma insert_erase_list:
  "k \<le> length xs \<Longrightarrow>
   take k (take k xs @ [x] @ drop k xs) @ drop (Suc k) (take k xs @ [x] @ drop k xs) = xs"
  by simp

lemma Insert_Erase_result:
  assumes wf: "well_formed v" and ins: "Insert env k a v = Return r v1"
    and er: "Erase env k v1 = Return r' v2"
  shows "elems v2 = elems v \<and> v_size v2 = v_size v \<and> well_formed v2"
proof -
  from ins have "Emplace env k a v = Return r v1"
    by (simp add: Insert_def)
  from Emplace_result [OF wf this] obtain x where
    range: "0 \<le> k" "k \<le> int (v_size v)" and s1: "v_size v1 = v_size v + 1"
    and e1: "elems v1 = take (nat k) (elems v) @ [x] @ drop (nat k) (elems v)"
    and wf1: "well_formed v1"
    by blast
  from Erase_result [OF wf1 er] have s2: "v_size v2 = v_size v1 - 1"
    and e2: "elems v2 = take (nat k) (elems v1) @ drop (Suc (nat k)) (elems v1)"
    and wf2: "well_formed v2"
    by blast+
  from range well_formedD(3) [OF wf] have "nat k \<le> length (elems v)"
    by (simp add: length_elems)
  from insert_erase_list [OF this] e1 e2 have "elems v2 = elems v"
    by simp
  with s1 s2 wf2 show ?thesis by simp
qed

text \<open>
  C5. On a well-formed vector, \<^verbatim>\<open>Insert\<close> at \<^verbatim>\<open>begin() + k\<close> followed by \<^verbatim>\<open>Erase\<close> at
  \<^verbatim>\<open>begin() + k\<close>: when both calls return, the elements and the size are those before the
  insertion. For \<open>0 \<le> k \<le> size\<close> both calls do return when the allocation (if growth is
  due) succeeds and no constructor or move assignment of the element type throws.
\<close>

theorem Insert_then_Erase_identity:
  "(well_formed v \<and> Insert env k a v = Return r v1 \<and> Erase env k v1 = Return r' v2 \<longrightarrow>
      elems v2 = elems v \<and> v_size v2 = v_size v) \<and>
   (well_formed v \<and> 0 \<le> k \<and> k \<le> int (v_size v) \<and>
    (v_size v = Capacity v \<longrightarrow>
       \<not> operator_new_fails env (if v_size v = 0 then 1 else v_size v * 2)) \<and>
    construct_element env (GetAddress v) a = Some x \<and>
    (\<forall>y. \<not> move_ctor_throws env y) \<and> (\<forall>y. \<not> copy_ctor_throws env y) \<and>
    (\<forall>y z. \<not> move_assign_throws env y z) \<longrightarrow>
      (\<exists>w1 w2. Insert env k a v = Return (nat k) w1 \<and> Erase env k w1 = Return (nat k) w2 \<and>
               elems w2 = elems v \<and> v_size w2 = v_size v))"
proof (intro conjI impI)
  assume "well_formed v \<and> Insert env k a v = Return r v1 \<and> Erase env k v1 = Return r' v2"
  then show "elems v2 = elems v" "v_size v2 = v_size v"
    using Insert_Erase_result [of v env k a r v1 r' v2] by simp_all
next
  assume h: "well_formed v \<and> 0 \<le> k \<and> k \<le> int (v_size v) \<and>
    (v_size v = Capacity v \<longrightarrow>
       \<not> operator_new_fails env (if v_size v = 0 then 1 else v_size v * 2)) \<and>
    construct_element env (GetAddress v) a = Some x \<and>
    (\<forall>y. \<not> move_ctor_throws env y) \<and> (\<forall>y. \<not> copy_ctor_throws env y) \<and>
    (\<forall>y z. \<not> move_assign_throws env y z)"
  then have r: "0 \<le> k" "k \<le> int (v_size v)"
    and al: "v_size v = Capacity v \<longrightarrow>
       \<not> operator_new_fails env (if v_size v = 0 then 1 else v_size v * 2)"
    and c: "construct_element env (GetAddress v) a = Some x"
    and nt: "\<forall>y. \<not> move_ctor_throws env y" "\<forall>y. \<not> copy_ctor_throws env y"
      "\<forall>y z. \<not> move_assign_throws env y z"
    by blast+
  from Emplace_returns [OF r al c nt] obtain w1 where
    i: "Insert env k a v = Return (nat k) w1"
    by (auto simp: Insert_def)
  then have "Emplace env k a v = Return (nat k) w1"
    by (simp add: Insert_def)
  from Emplace_result [OF _ this] h have "v_size w1 = v_size v + 1"
    by blast
  with h have "k < int (v_size w1)" by simp
  with h obtain w2 where e: "Erase env k w1 = Return (nat k) w2"
    using Erase_returns [of k w1 env] by blast
  from Insert_Erase_result [OF _ i e] h i e
  show "\<exists>w1 w2. Insert env k a v = Return (nat k) w1 \<and> Erase env k w1 = Return (nat k) w2 \<and>
               elems w2 = elems v \<and> v_size w2 = v_size v"
    by blast
qed

theorem Insert_then_Erase_identity_witness:
  "well_formed (vec [Some (1::int), Some 2, Some 3, None] 3) \<and>
   (0::int) \<le> 1 \<and> (1::int) \<le> int (v_size (vec [Some (1::int), Some 2, Some 3, None] 3)) \<and>
   v_size (vec [Some (1::int), Some 2, Some 3, None] 3)
     \<noteq> Capacity (vec [Some (1::int), Some 2, Some 3, None] 3) \<and>
   construct_element int_env (GetAddress (vec [Some 1, Some 2, Some 3, None] 3)) (Lvalue 99)
     = Some 99 \<and>
   (\<forall>y. \<not> move_ctor_throws int_env y) \<and> (\<forall>y. \<not> copy_ctor_throws int_env y) \<and>
   (\<forall>y z. \<not> move_assign_throws int_env y z) \<and>
   Insert int_env 1 (Lvalue 99) (vec [Some 1, Some 2, Some 3, None] 3)
     = Return 1 (vec [Some 1, Some 99, Some 2, Some 3] 4) \<and>
   Erase int_env 1 (vec [Some 1, Some 99, Some 2, Some 3] 4)
     = Return 1 (vec [Some 1, Some 2, Some 3, None] 3) \<and>
   elems (vec [Some (1::int), Some 2, Some 3, None] 3) = [1, 2, 3]"
proof -
  have a: "Insert int_env 1 (Lvalue 99) (vec [Some 1, Some 2, Some 3, None] 3)
     = Return 1 (vec [Some 1, Some 99, Some 2, Some 3] 4)"
    "Erase int_env 1 (vec [Some 1, Some 99, Some 2, Some 3] 4)
     = Return 1 (vec [Some 1, Some 2, Some 3, None] 3)"
    by code_simp+
  have b: "well_formed (vec [Some (1::int), Some 2, Some 3, None] 3)"
    by (simp add: well_formed_def)
  have c: "construct_element int_env (GetAddress (vec [Some 1, Some 2, Some 3, None] 3))
      (Lvalue 99) = Some 99"
    "\<forall>y. \<not> move_ctor_throws int_env y" "\<forall>y. \<not> copy_ctor_throws int_env y"
    "\<forall>y z. \<not> move_assign_throws int_env y z"
    by (simp_all add: construct_element_def int_env_def)
  from Insert_then_Erase_identity [of "vec [Some 1, Some 2, Some 3, None] 3" int_env 1
      "Lvalue 99" 1 "vec [Some 1, Some 99, Some 2, Some 3] 4" 1
      "vec [Some 1, Some 2, Some 3, None] 3" 99] a b c
  show ?thesis by (simp add: elems_def)
qed

section \<open>Inserting an element of the vector itself\<close>

lemma Insert_Element_result:
  assumes wf: "well_formed v" and i: "i < v_size v"
    and ins: "Insert env p (Element i) v = Return r v'"
  shows "elems v' = take (nat p) (elems v) @ [elems v ! i] @ drop (nat p) (elems v) \<and>
         v_size v' = v_size v + 1 \<and> r = nat p \<and> well_formed v'"
proof -
  from ins have "Emplace env p (Element i) v = Return r v'"
    by (simp add: Insert_def)
  from Emplace_result [OF wf this] obtain x where
    x: "construct_element env (GetAddress v) (Element i) = Some x"
    and rest: "r = nat p" "v_size v' = v_size v + 1"
      "elems v' = take (nat p) (elems v) @ [x] @ drop (nat p) (elems v)" "well_formed v'"
    by blast
  from x have "x = the (GetAddress v ! i)"
    by (simp add: construct_element_def Let_def split: if_splits)
  also from i well_formedD(3) [OF wf] have "\<dots> = elems v ! i"
    by (simp add: elems_def)
  finally show ?thesis
    using rest by simp
qed

text \<open>
  C6. On a well-formed vector, \<^verbatim>\<open>Insert(begin() + p, v[i])\<close> with \<open>i < size\<close>, the argument
  being a reference to the vector's own element: when the call returns, the elements are
  those before the call with the value that \<^verbatim>\<open>v[i]\<close> had before the call inserted at
  offset \<open>p\<close>. For \<open>0 \<le> p \<le> size\<close> the call does return when the allocation (if growth is
  due) succeeds and no constructor or move assignment of the element type throws.
\<close>

theorem Insert_own_element:
  "(well_formed v \<and> i < v_size v \<and> Insert env p (Element i) v = Return r v' \<longrightarrow>
      elems v' = take (nat p) (elems v) @ [elems v ! i] @ drop (nat p) (elems v) \<and>
      v_size v' = v_size v + 1) \<and>
   (well_formed v \<and> i < v_size v \<and> 0 \<le> p \<and> p \<le> int (v_size v) \<and>
    (v_size v = Capacity v \<longrightarrow>
       \<not> operator_new_fails env (if v_size v = 0 then 1 else v_size v * 2)) \<and>
    (\<forall>y. \<not> move_ctor_throws env y) \<and> (\<forall>y. \<not> copy_ctor_throws env y) \<and>
    (\<forall>y z. \<not> move_assign_throws env y z) \<longrightarrow>
      (\<exists>w. Insert env p (Element i) v = Return (nat p) w \<and>
           elems w = take (nat p) (elems v) @ [elems v ! i] @ drop (nat p) (elems v)))"
proof (intro conjI impI)
  assume "well_formed v \<and> i < v_size v \<and> Insert env p (Element i) v = Return r v'"
  then show "elems v' = take (nat p) (elems v) @ [elems v ! i] @ drop (nat p) (elems v)"
    "v_size v' = v_size v + 1"
    using Insert_Element_result [of v i env p r v'] by simp_all
next
  assume h: "well_formed v \<and> i < v_size v \<and> 0 \<le> p \<and> p \<le> int (v_size v) \<and>
    (v_size v = Capacity v \<longrightarrow>
       \<not> operator_new_fails env (if v_size v = 0 then 1 else v_size v * 2)) \<and>
    (\<forall>y. \<not> move_ctor_throws env y) \<and> (\<forall>y. \<not> copy_ctor_throws env y) \<and>
    (\<forall>y z. \<not> move_assign_throws env y z)"
  then have c: "construct_element env (GetAddress v) (Element i) = Some (the (GetAddress v ! i))"
    by (simp add: construct_element_def)
  from h have r: "0 \<le> p" "p \<le> int (v_size v)"
    and al: "v_size v = Capacity v \<longrightarrow>
       \<not> operator_new_fails env (if v_size v = 0 then 1 else v_size v * 2)"
    and nt: "\<forall>y. \<not> move_ctor_throws env y" "\<forall>y. \<not> copy_ctor_throws env y"
      "\<forall>y z. \<not> move_assign_throws env y z"
    by blast+
  from Emplace_returns [OF r al c nt] obtain w where
    w: "Insert env p (Element i) v = Return (nat p) w"
    by (auto simp: Insert_def)
  from Insert_Element_result [OF _ _ w] h w
  show "\<exists>w. Insert env p (Element i) v = Return (nat p) w \<and>
           elems w = take (nat p) (elems v) @ [elems v ! i] @ drop (nat p) (elems v)"
    by blast
qed

theorem Insert_own_element_witness:
  "well_formed (vec [Some (10::int), Some 20, Some 30, None] 3) \<and>
   0 < v_size (vec [Some (10::int), Some 20, Some 30, None] 3) \<and>
   Insert int_env 3 (Element 0) (vec [Some 10, Some 20, Some 30, None] 3)
     = Return 3 (vec [Some 10, Some 20, Some 30, Some 10] 4) \<and>
   elems (vec [Some (10::int), Some 20, Some 30, Some 10] 4) = [10, 20, 30, 10] \<and>
   well_formed (vec [Some (10::int), Some 20, Some 30] 3) \<and>
   Insert int_env 3 (Element 0) (vec [Some 10, Some 20, Some 30] 3)
     = Return 3 (vec [Some 10, Some 20, Some 30, Some 10, None, None] 4) \<and>
   Insert int_env 1 (Element 2) (vec [Some 10, Some 20, Some 30, None] 3)
     = Return 1 (vec [Some 10, Some 30, Some 20, Some 30] 4) \<and>
   (\<forall>y. \<not> move_ctor_throws int_env y) \<and> (\<forall>y. \<not> copy_ctor_throws int_env y) \<and>
   (\<forall>y z. \<not> move_assign_throws int_env y z) \<and> \<not> operator_new_fails int_env 6"
proof -
  have a: "Insert int_env 3 (Element 0) (vec [Some 10, Some 20, Some 30, None] 3)
     = Return 3 (vec [Some 10, Some 20, Some 30, Some 10] 4)"
    "Insert int_env 3 (Element 0) (vec [Some 10, Some 20, Some 30] 3)
     = Return 3 (vec [Some 10, Some 20, Some 30, Some 10, None, None] 4)"
    "Insert int_env 1 (Element 2) (vec [Some 10, Some 20, Some 30, None] 3)
     = Return 1 (vec [Some 10, Some 30, Some 20, Some 30] 4)"
    by code_simp+
  have b: "well_formed (vec [Some (10::int), Some 20, Some 30, None] 3)"
    "well_formed (vec [Some (10::int), Some 20, Some 30] 3)"
    by (simp_all add: well_formed_def)
  have c: "\<forall>y. \<not> move_ctor_throws int_env y" "\<forall>y. \<not> copy_ctor_throws int_env y"
    "\<forall>y z. \<not> move_assign_throws int_env y z" "\<not> operator_new_fails int_env 6"
    by (simp_all add: int_env_def)
  from Insert_own_element [of "vec [Some 10, Some 20, Some 30, None] 3" 0 int_env 3 3
      "vec [Some 10, Some 20, Some 30, Some 10] 4"]
    Insert_own_element [of "vec [Some 10, Some 20, Some 30] 3" 0 int_env 3 3
      "vec [Some 10, Some 20, Some 30, Some 10, None, None] 4"] a b c
  show ?thesis by (simp add: elems_def)
qed

section \<open>Copy construction and copy assignment\<close>

lemma Vector_copy_result:
  assumes wf: "well_formed other" and c: "Vector_copy env other = Inr v'"
  shows "v_size v' = v_size other \<and> Capacity v' = v_size other \<and> elems v' = elems other \<and>
         well_formed v'"
proof -
  note wfD = well_formedD [OF wf]
  let ?n = "v_size other"
  let ?nd = "\<lparr>rm_buffer = replicate ?n None, rm_capacity = ?n\<rparr> :: 'a RawMemory"
  obtain ok b where m: "uninitialized_copy_n env (GetAddress other) 0 ?n (rm_buffer ?nd) 0 = (ok, b)"
    by (cases "uninitialized_copy_n env (GetAddress other) 0 ?n (rm_buffer ?nd) 0")
  from c have alloc: "RawMemory_fitting env ?n = Some ?nd"
    by (auto simp: Vector_copy_def RawMemory_fitting_def split: if_splits)
  have ok: "ok"
  proof (rule ccontr)
    assume "\<not> ok"
    with c alloc m show False by (simp add: Vector_copy_def)
  qed
  from c alloc m ok have v': "v' = \<lparr>v_data = ?nd\<lparr>rm_buffer := b\<rparr>, v_size = ?n\<rparr>"
    by (simp add: Vector_copy_def)
  from m ok have "uninitialized_copy_n env (GetAddress other) 0 ?n (rm_buffer ?nd) 0 = (True, b)"
    by simp
  from ucopy_success [OF this] have nth: "\<And>k. k < ?n \<Longrightarrow> b ! k = Some (the (GetAddress other ! k))"
    by simp
  from ucopy_length [OF m] have len: "length b = ?n"
    by simp
  have s: "v_size v' = ?n" and cap: "Capacity v' = ?n" and b': "GetAddress v' = b"
    by (simp_all add: v' Capacity_def GetAddress_def)
  have e: "elems v' = elems other"
    using s wfD(3) len nth by (intro elems_eqI) (simp_all add: b')
  have w: "well_formed v'"
    using len nth by (intro well_formedI) (simp_all add: s cap b')
  from s cap e w show ?thesis by simp
qed

lemma std_copy_never_False:
  "\<forall>y x. \<not> copy_assign_throws env y x \<Longrightarrow> std_copy env src f n dst r \<noteq> (False, d)"
  by (induction n arbitrary: dst f r) (simp_all add: Let_def)

lemma copy_assign_This: "copy_assign env This v = Return () v"
  by (simp add: copy_assign_def)

lemma copy_assign_realloc_Throw:
  assumes "v_size r > Capacity v" and "copy_assign env (Other r) v = Throw e v'"
  shows "v' = v"
  using assms
  by (auto simp: copy_assign_def Swap_eq split: sum.splits simp flip: Capacity_def)

lemma copy_assign_realloc_Return:
  assumes gt: "v_size r > Capacity v" and wf: "well_formed r"
    and ret: "copy_assign env (Other r) v = Return () v'"
  shows "v_size v' = v_size r \<and> Capacity v' = v_size r \<and> elems v' = elems r \<and> well_formed v'"
proof -
  from gt ret obtain rc where c: "Vector_copy env r = Inr rc" and v': "v' = rc\<lparr>v_size := v_size r\<rparr>"
    by (auto simp: copy_assign_def Swap_eq split: sum.splits simp flip: Capacity_def)
  from Vector_copy_result [OF wf c] have "v_size rc = v_size r" by simp
  with v' have "v' = rc" by simp
  with Vector_copy_result [OF wf c] show ?thesis by simp
qed

lemma copy_assign_inplace:
  assumes le: "v_size r \<le> Capacity v" and wf: "well_formed v"
  shows "after (\<lambda>v'. Capacity v' = Capacity v \<and> well_formed v' \<and>
           (copy_assign env (Other r) v = Return () v' \<longrightarrow>
              v_size v' = v_size r \<and> v_size r \<le> length (GetAddress v') \<and>
              (\<forall>k < v_size r. GetAddress v' ! k = Some (the (GetAddress r ! k)))) \<and>
           (\<forall>e. copy_assign env (Other r) v = Throw e v' \<longrightarrow> v_size v' = v_size v))
         (copy_assign env (Other r) v)"
proof -
  note wfD = well_formedD [OF wf]
  let ?n = "v_size v" and ?nr = "v_size r"
  let ?b = "GetAddress v" and ?rb = "GetAddress r"
  let ?m = "min ?n ?nr"
  from le have ca: "copy_assign env (Other r) v =
      (case handleAssignment env r v of
         Return u v' \<Rightarrow> Return () (v'\<lparr>v_size := ?nr\<rparr>)
       | Throw e v' \<Rightarrow> Throw e v' | AssertFail \<Rightarrow> AssertFail)"
    by (simp add: copy_assign_def flip: Capacity_def)
  obtain ok1 b1 where c1: "std_copy env ?rb 0 ?m ?b 0 = (ok1, b1)"
    by (cases "std_copy env ?rb 0 ?m ?b 0")
  note l1 = std_copy_length [OF c1]
  have live1: "b1 ! j \<noteq> None" if "j < ?n" for j
    using std_copy_live [OF c1 wfD(4) [OF that]] .
  show ?thesis
  proof (cases ok1)
    case False
    with c1 have "handleAssignment env r v = Throw element_exn (with_buffer v b1)"
      by (simp add: handleAssignment_def Let_def)
    with ca l1 wfD live1 show ?thesis
      by (simp add: well_formed_iff)
  next
    case True
    with c1 have c1': "std_copy env ?rb 0 ?m ?b 0 = (True, b1)"
      by simp
    from wfD have "0 + ?m \<le> length ?b" by simp
    note s1 = std_copy_success [OF c1' this]
    have pre: "b1 ! k = Some (the (?rb ! k))" if "k < ?m" for k
      using s1 [OF that] by simp
    show ?thesis
    proof (cases "?nr < ?n")
      case shrink: True
      let ?b2 = "destroy_n b1 ?nr (?n - ?nr)"
      from c1' shrink have "handleAssignment env r v = Return () (with_buffer v ?b2)"
        by (simp add: handleAssignment_def Let_def)
      with ca have ret: "copy_assign env (Other r) v = Return () ((with_buffer v ?b2)\<lparr>v_size := ?nr\<rparr>)"
        by simp
      from shrink l1 wfD have "?nr + (?n - ?nr) \<le> length b1"
        by simp
      from nth_destroy_n [OF this] shrink pre have "?b2 ! k = Some (the (?rb ! k))" if "k < ?nr" for k
        using that by simp
      with ret l1 wfD le show ?thesis
        by (simp add: well_formed_iff)
    next
      case grow: False
      then have m: "?m = ?n" by simp
      obtain ok2 b2 where c2: "uninitialized_copy_n env ?rb ?m (?nr - ?m) b1 ?m = (ok2, b2)"
        by (cases "uninitialized_copy_n env ?rb ?m (?nr - ?m) b1 ?m")
      note l2 = ucopy_length [OF c2]
      show ?thesis
      proof (cases ok2)
        case False
        with c1' c2 grow have "handleAssignment env r v = Throw element_exn (with_buffer v b2)"
          by (simp add: handleAssignment_def Let_def)
        moreover have "b2 ! j \<noteq> None" if "j < ?n" for j
          using ucopy_below [OF c2, of j] that m live1 [of j] by simp
        ultimately show ?thesis
          using ca l1 l2 wfD by (simp add: well_formed_iff)
      next
        case True
        with c1' c2 grow have "handleAssignment env r v = Return () (with_buffer v b2)"
          by (simp add: handleAssignment_def Let_def)
        with ca have ret: "copy_assign env (Other r) v = Return () ((with_buffer v b2)\<lparr>v_size := ?nr\<rparr>)"
          by simp
        from c2 True have c2': "uninitialized_copy_n env ?rb ?m (?nr - ?m) b1 ?m = (True, b2)"
          by simp
        from grow l1 wfD le have "?m + (?nr - ?m) \<le> length b1"
          by simp
        note s2 = ucopy_success [OF c2' this]
        have "b2 ! k = Some (the (?rb ! k))" if "k < ?nr" for k
        proof (cases "k < ?m")
          case True
          with s2 pre show ?thesis by simp
        next
          case False
          define i where "i = k - ?m"
          with False that have "k = ?m + i" "i < ?nr - ?m"
            by simp_all
          with s2 show ?thesis by simp
        qed
        with ret l1 l2 wfD le show ?thesis
          by (simp add: well_formed_iff)
      qed
    qed
  qed
qed

lemma copy_assign_inplace_Return:
  assumes le: "v_size r \<le> Capacity v" and wf: "well_formed v" and wfr: "well_formed r"
    and ret: "copy_assign env (Other r) v = Return () v'"
  shows "v_size v' = v_size r \<and> Capacity v' = Capacity v \<and> elems v' = elems r \<and>
         well_formed v'"
proof -
  from after_ReturnD [OF copy_assign_inplace [OF le wf] ret] ret
  have c: "Capacity v' = Capacity v" and w: "well_formed v'" and s: "v_size v' = v_size r"
    and l: "v_size r \<le> length (GetAddress v')"
    and nth: "\<And>k. k < v_size r \<Longrightarrow> GetAddress v' ! k = Some (the (GetAddress r ! k))"
    by blast+
  have "elems v' = elems r"
    using s well_formedD(3) [OF wfr] l nth by (intro elems_eqI) simp_all
  with c w s show ?thesis by simp
qed

lemma copy_assign_returns:
  assumes "v_size r > Capacity v \<longrightarrow> \<not> operator_new_fails env (v_size r)"
    and "\<forall>x. \<not> copy_ctor_throws env x" and "\<forall>y x. \<not> copy_assign_throws env y x"
  shows "\<exists>v'. copy_assign env (Other r) v = Return () v'"
proof -
  note [simp] = ucopy_never_False [OF assms(2)] std_copy_never_False [OF assms(3)]
  show ?thesis
  proof (cases "v_size r > Capacity v")
    case True
    with assms(1) show ?thesis
      by (simp add: copy_assign_def Vector_copy_def RawMemory_fitting_def Swap_eq
          split: prod.split bool.split flip: Capacity_def)
  next
    case False
    then show ?thesis
      by (simp add: copy_assign_def handleAssignment_def Let_def
          split: prod.split bool.split flip: Capacity_def)
  qed
qed

text \<open>
  C4. Copy assignment from the vector itself returns it unchanged. From another vector
  \<open>r\<close> it takes one of two paths, chosen by comparing \<open>r\<close>'s size with the capacity of the
  target. If the size is larger, a copy of \<open>r\<close> is built and swapped in: an exception leaves
  the target exactly as it was, and on return the capacity is \<open>r\<close>'s size. Otherwise the
  storage is reused: the capacity stays, and the target is well-formed on return and after
  an exception alike. Whenever the assignment returns, the target has \<open>r\<close>'s size and
  elements. It returns when the allocation (on the first path) succeeds and neither the
  copy constructor nor the copy assignment of the element type throws. On the second path
  an exception can leave the target partly overwritten: assigning \<open>[5, -1]\<close> to \<open>[1, 2]\<close>
  where the assignment from \<open>-1\<close> throws leaves \<open>[5, 2]\<close>.
\<close>

theorem copy_assign_spec:
  "copy_assign env This v = Return () v \<and>
   (Capacity v < v_size r \<longrightarrow>
      (\<forall>e w. copy_assign env (Other r) v = Throw e w \<longrightarrow> w = v) \<and>
      (well_formed r \<and> copy_assign env (Other r) v = Return () v' \<longrightarrow>
         Capacity v' = v_size r)) \<and>
   (v_size r \<le> Capacity v \<and> well_formed v \<longrightarrow>
      after (\<lambda>w. Capacity w = Capacity v \<and> well_formed w) (copy_assign env (Other r) v)) \<and>
   (well_formed v \<and> well_formed r \<and> copy_assign env (Other r) v = Return () v' \<longrightarrow>
      v_size v' = v_size r \<and> elems v' = elems r \<and> well_formed v') \<and>
   ((Capacity v < v_size r \<longrightarrow> \<not> operator_new_fails env (v_size r)) \<and>
    (\<forall>x. \<not> copy_ctor_throws env x) \<and> (\<forall>y x. \<not> copy_assign_throws env y x) \<longrightarrow>
      (\<exists>w. copy_assign env (Other r) v = Return () w)) \<and>
   copy_assign fragile_env (Other (vec [Some 5, Some (- 1)] 2)) (vec [Some 1, Some 2, None] 2)
     = Throw element_exn (vec [Some 5, Some 2, None] 2)"
proof (intro conjI impI allI)
  show "copy_assign env This v = Return () v"
    by (rule copy_assign_This)
  show "w = v" if "Capacity v < v_size r" "copy_assign env (Other r) v = Throw e w" for e w
    using that by (rule copy_assign_realloc_Throw)
  show "Capacity v' = v_size r"
    if "Capacity v < v_size r" "well_formed r \<and> copy_assign env (Other r) v = Return () v'"
    using copy_assign_realloc_Return [of v r env v'] that by simp
  show "after (\<lambda>w. Capacity w = Capacity v \<and> well_formed w) (copy_assign env (Other r) v)"
    if "v_size r \<le> Capacity v \<and> well_formed v"
    using that by (intro after_mono [OF copy_assign_inplace [of r v env]]) simp_all
  show "\<exists>w. copy_assign env (Other r) v = Return () w"
    if "(Capacity v < v_size r \<longrightarrow> \<not> operator_new_fails env (v_size r)) \<and>
      (\<forall>x. \<not> copy_ctor_throws env x) \<and> (\<forall>y x. \<not> copy_assign_throws env y x)"
    using that copy_assign_returns [of v r env] by blast
  show "copy_assign fragile_env (Other (vec [Some 5, Some (- 1)] 2)) (vec [Some 1, Some 2, None] 2)
     = Throw element_exn (vec [Some 5, Some 2, None] 2)"
    by code_simp
next
  assume h: "well_formed v \<and> well_formed r \<and> copy_assign env (Other r) v = Return () v'"
  have "v_size v' = v_size r \<and> elems v' = elems r \<and> well_formed v'"
  proof (cases "Capacity v < v_size r")
    case True
    with h copy_assign_realloc_Return [of v r env v'] show ?thesis by simp
  next
    case False
    with h copy_assign_inplace_Return [of r v env v'] show ?thesis by simp
  qed
  then show "v_size v' = v_size r" "elems v' = elems r" "well_formed v'"
    by simp_all
qed

theorem copy_assign_spec_witness:
  "Capacity (vec [Some (7::int), None] 1) < v_size (vec [Some (1::int), Some 2, Some 3] 3) \<and>
   well_formed (vec [Some (1::int), Some 2, Some 3] 3) \<and>
   well_formed (vec [Some (7::int), None] 1) \<and>
   \<not> operator_new_fails int_env 3 \<and>
   (\<forall>x. \<not> copy_ctor_throws int_env x) \<and> (\<forall>y x. \<not> copy_assign_throws int_env y x) \<and>
   copy_assign int_env (Other (vec [Some 1, Some 2, Some 3] 3)) (vec [Some 7, None] 1)
     = Return () (vec [Some 1, Some 2, Some 3] 3) \<and>
   copy_assign fragile_env (Other (vec [Some 1, Some (- 2), Some 3] 3)) (vec [Some 7, None] 1)
     = Throw element_exn (vec [Some 7, None] 1) \<and>
   v_size (vec [Some (1::int)] 1) \<le> Capacity (vec [Some (7::int), Some 8, Some 9] 3) \<and>
   well_formed (vec [Some (7::int), Some 8, Some 9] 3) \<and> well_formed (vec [Some (1::int)] 1) \<and>
   copy_assign int_env (Other (vec [Some 1] 1)) (vec [Some 7, Some 8, Some 9] 3)
     = Return () (vec [Some 1, None, None] 1) \<and>
   elems (vec [Some (1::int), None, None] 1) = elems (vec [Some (1::int)] 1)"
proof -
  have a: "copy_assign int_env (Other (vec [Some 1, Some 2, Some 3] 3)) (vec [Some 7, None] 1)
     = Return () (vec [Some 1, Some 2, Some 3] 3)"
    "copy_assign fragile_env (Other (vec [Some 1, Some (- 2), Some 3] 3)) (vec [Some 7, None] 1)
     = Throw element_exn (vec [Some 7, None] 1)"
    "copy_assign int_env (Other (vec [Some 1] 1)) (vec [Some 7, Some 8, Some 9] 3)
     = Return () (vec [Some 1, None, None] 1)"
    by code_simp+
  have b: "well_formed (vec [Some (1::int), Some 2, Some 3] 3)"
    "well_formed (vec [Some (7::int), None] 1)"
    "well_formed (vec [Some (7::int), Some 8, Some 9] 3)" "well_formed (vec [Some (1::int)] 1)"
    by (simp_all add: well_formed_def)
  have c: "\<not> operator_new_fails int_env 3" "\<forall>x. \<not> copy_ctor_throws int_env x"
    "\<forall>y x. \<not> copy_assign_throws int_env y x"
    by (simp_all add: int_env_def)
  have d: "Capacity (vec [Some (7::int), None] 1) < v_size (vec [Some (1::int), Some 2, Some 3] 3)"
    "v_size (vec [Some (1::int)] 1) \<le> Capacity (vec [Some (7::int), Some 8, Some 9] 3)"
    by simp_all
  have e: "elems (vec [Some (1::int), None, None] 1) = elems (vec [Some (1::int)] 1)"
    using copy_assign_spec [of int_env "vec [Some 7, Some 8, Some 9] 3" "vec [Some 1] 1"
      "vec [Some 1, None, None] 1"] a(3) b(3,4)
    by blast
  from a b c d e show ?thesis by blast
qed

end
